theory Spec2Isabelle
  imports Main "HOL-Library.Word" "HOL-Library.Sublist"
begin

section \<open>Platform handles (platform.hpp)\<close>

text \<open>
  \<^verbatim>\<open>Stream\<close> and \<^verbatim>\<open>Event\<close> are value-type handles wrapping an \<^verbatim>\<open>unsigned\<close> id.
  Their \<^verbatim>\<open>operator==\<close> compares the ids, which is HOL equality on the datatype.
\<close>

type_synonym id_t = "32 word"

datatype Stream = Stream (stream_id: id_t)

datatype Event = Event (event_id: id_t)

section \<open>Operations (ops_cuda.hpp)\<close>

text \<open>
  Each class of ops_cuda.hpp is a datatype with the class's data members in declaration
  order. The C++ constructors fix the \<^verbatim>\<open>name_\<close> member to a literal; the functions
  \<open>new_...\<close> below are those constructors. \<^verbatim>\<open>update_name\<close> (declared in the header,
  defined elsewhere) may later replace the name, so the name stays a field.
\<close>

datatype StreamWait =
  StreamWait (sw_name: string) (sw_event: Event) (sw_waitee: Stream) (sw_waiter: Stream)

datatype StreamSync =
  StreamSync (ss_name: string) (ss_stream: Stream)

datatype CudaEventRecord =
  CudaEventRecord (cer_name: string) (cer_event: Event) (cer_stream: Stream)

datatype CudaStreamWaitEvent =
  CudaStreamWaitEvent (cswe_name: string) (cswe_stream: Stream) (cswe_event: Event)

datatype CudaEventSync =
  CudaEventSync (ces_name: string) (ces_event: Event)

text \<open>
  \<^verbatim>\<open>GpuOp\<close> is an abstract class; its instances are the type parameter \<open>'g\<close>.
  \<^verbatim>\<open>BoundGpuOp\<close> pairs one with a stream.
\<close>

datatype 'g BoundGpuOp =
  BoundGpuOp (bgo_op: 'g) (bgo_stream: Stream)

definition new_StreamWait :: "Stream \<Rightarrow> Stream \<Rightarrow> Event \<Rightarrow> StreamWait" where
  "new_StreamWait waitee waiter event = StreamWait ''StreamWait-anon'' event waitee waiter"

definition new_StreamSync :: "Stream \<Rightarrow> StreamSync" where
  "new_StreamSync stream = StreamSync ''streamsync-anon'' stream"

definition new_CudaEventRecord :: "Event \<Rightarrow> Stream \<Rightarrow> CudaEventRecord" where
  "new_CudaEventRecord event stream = CudaEventRecord ''CudaEventRecord-anon'' event stream"

definition new_CudaStreamWaitEvent :: "Stream \<Rightarrow> Event \<Rightarrow> CudaStreamWaitEvent" where
  "new_CudaStreamWaitEvent stream event =
     CudaStreamWaitEvent ''CudaStreamWaitEvent-anon'' stream event"

definition new_CudaEventSync :: "Event \<Rightarrow> CudaEventSync" where
  "new_CudaEventSync event = CudaEventSync ''CudaEventSync-anon'' event"

subsection \<open>The classes' \<^verbatim>\<open>operator==\<close>\<close>

definition StreamWait_eq :: "StreamWait \<Rightarrow> StreamWait \<Rightarrow> bool" where
  "StreamWait_eq lhs rhs = (sw_name lhs = sw_name rhs)"

text \<open>\<^verbatim>\<open>StreamSync::operator==\<close> is \<^verbatim>\<open>(void) rhs; return true;\<close>.\<close>

definition StreamSync_eq :: "StreamSync \<Rightarrow> StreamSync \<Rightarrow> bool" where
  "StreamSync_eq lhs rhs = True"

definition CudaEventRecord_eq :: "CudaEventRecord \<Rightarrow> CudaEventRecord \<Rightarrow> bool" where
  "CudaEventRecord_eq lhs rhs = (cer_name lhs = cer_name rhs)"

definition CudaStreamWaitEvent_eq :: "CudaStreamWaitEvent \<Rightarrow> CudaStreamWaitEvent \<Rightarrow> bool" where
  "CudaStreamWaitEvent_eq lhs rhs = (cswe_name lhs = cswe_name rhs)"

definition CudaEventSync_eq :: "CudaEventSync \<Rightarrow> CudaEventSync \<Rightarrow> bool" where
  "CudaEventSync_eq lhs rhs = (ces_name lhs = ces_name rhs)"

text \<open>
  \<^verbatim>\<open>BoundGpuOp::operator==\<close> is \<^verbatim>\<open>(stream_ == rhs.stream_) && op_->eq(rhs.op_)\<close>.
  The virtual \<^verbatim>\<open>eq\<close> of the underlying \<^verbatim>\<open>GpuOp\<close> is the parameter \<open>gpu_eq\<close>.
\<close>

definition BoundGpuOp_eq :: "('g \<Rightarrow> 'g \<Rightarrow> bool) \<Rightarrow> 'g BoundGpuOp \<Rightarrow> 'g BoundGpuOp \<Rightarrow> bool" where
  "BoundGpuOp_eq gpu_eq lhs rhs = (bgo_stream lhs = bgo_stream rhs \<and> gpu_eq (bgo_op lhs) (bgo_op rhs))"

section \<open>Errors\<close>

text \<open>
  Every exception the modelled code can raise is a value: \<open>OutOfRange\<close> is the
  \<^verbatim>\<open>std::out_of_range\<close> of \<^verbatim>\<open>std::map::at\<close> on a missing key, \<open>Unreachable\<close> is
  \<^verbatim>\<open>THROW_RUNTIME("unreachable")\<close> in \<^verbatim>\<open>Node::expand\<close>, \<open>NameNotFound\<close> is
  \<^verbatim>\<open>THROW_RUNTIME("couldn't find op for name " << name)\<close> in \<^verbatim>\<open>mpi_bcast\<close>, and
  \<open>BcastCountMismatch\<close> stands for an \<^verbatim>\<open>MPI_Bcast\<close> whose receive count differs from the
  root's (erroneous in MPI). A function that can raise returns \<open>error + 'a\<close>.
\<close>

datatype error = OutOfRange | Unreachable | NameNotFound string | BcastCountMismatch

section \<open>Broadcast of an ordering (mcts.cpp, \<^verbatim>\<open>mpi_bcast\<close>)\<close>

text \<open>
  \<^verbatim>\<open>MPI_Bcast(buf, count, ...)\<close> copies the root's buffer into every other rank's buffer of
  the same count. \<open>MPI_Bcast root_buffer buffer\<close> is what a rank holding \<open>buffer\<close> holds
  afterwards.
\<close>

definition MPI_Bcast :: "'a list \<Rightarrow> 'a list \<Rightarrow> error + 'a list" where
  "MPI_Bcast root_buffer buffer =
     (if length buffer = length root_buffer then Inr root_buffer else Inl BcastCountMismatch)"

text \<open>
  The loop \<^verbatim>\<open>for (auto l : nameLengths) { names.push_back(std::string(&allNames[off], l)); off += l; }\<close>.
\<close>

fun split_names :: "char list \<Rightarrow> nat list \<Rightarrow> string list" where
  "split_names allNames [] = []"
| "split_names allNames (l # ls) = take l allNames # split_names (drop l allNames) ls"

text \<open>
  The inner loop over \<^verbatim>\<open>oi\<close>: the index of the first element of \<^verbatim>\<open>order\<close> whose name is
  \<open>n\<close>. The virtual \<^verbatim>\<open>name()\<close> is the parameter \<open>name\<close>.
\<close>

fun find_op :: "('op \<Rightarrow> string) \<Rightarrow> 'op list \<Rightarrow> string \<Rightarrow> nat option" where
  "find_op name [] n = None"
| "find_op name (x # xs) n = (if name x = n then Some 0 else map_option Suc (find_op name xs n))"

text \<open>The loop over \<^verbatim>\<open>names\<close> that fills \<^verbatim>\<open>pos\<close>, raising at the first name not found.\<close>

fun find_positions :: "('op \<Rightarrow> string) \<Rightarrow> 'op list \<Rightarrow> string list \<Rightarrow> error + nat list" where
  "find_positions name order [] = Inr []"
| "find_positions name order (n # ns) =
     (case find_op name order n of
        None \<Rightarrow> Inl (NameNotFound n)
      | Some oi \<Rightarrow>
          (case find_positions name order ns of
             Inl e \<Rightarrow> Inl e
           | Inr pos \<Rightarrow> Inr (oi # pos)))"

text \<open>
  \<open>mpi_bcast name rank root_order order\<close> is the value of \<^verbatim>\<open>order\<close> after the call on rank
  \<open>rank\<close>, where \<open>root_order\<close> is the list rank 0 passed (on rank 0 they are the same
  list). The first broadcast, of \<^verbatim>\<open>orderSize\<close>, writes a variable that is never read again
  and is left out. \<^verbatim>\<open>nameLengths\<close> is built from the local list before it is overwritten by
  the broadcast; a receiver's \<^verbatim>\<open>allNames\<close> is resized to the sum of the received lengths.
  Name lengths are natural numbers (the \<^verbatim>\<open>int\<close> conversion is exact for names shorter than
  \<open>2^31\<close>).
\<close>

definition mpi_bcast :: "('op \<Rightarrow> string) \<Rightarrow> nat \<Rightarrow> 'op list \<Rightarrow> 'op list \<Rightarrow> error + 'op list" where
  "mpi_bcast name rank root_order order =
     (case MPI_Bcast (map (\<lambda>op. length (name op)) root_order) (map (\<lambda>op. length (name op)) order) of
        Inl e \<Rightarrow> Inl e
      | Inr nameLengths \<Rightarrow>
          let totalLength = sum_list nameLengths;
              allNames0 = (if rank = 0 then concat (map name order) else replicate totalLength (CHR 0x00))
          in (case MPI_Bcast (concat (map name root_order)) allNames0 of
                Inl e \<Rightarrow> Inl e
              | Inr allNames \<Rightarrow>
                  let names = split_names allNames nameLengths
                  in if rank \<noteq> 0
                     then (case find_positions name order names of
                             Inl e \<Rightarrow> Inl e
                           | Inr pos \<Rightarrow> Inr (map (\<lambda>oi. order ! oi) pos))
                     else Inr order))"

text \<open>\<^verbatim>\<open>BoundGpuOp::name()\<close> returns \<^verbatim>\<open>op_->name()\<close>.\<close>

definition BoundGpuOp_name :: "('g \<Rightarrow> string) \<Rightarrow> 'g BoundGpuOp \<Rightarrow> string" where
  "BoundGpuOp_name gpu_name b = gpu_name (bgo_op b)"

section \<open>Operation graph\<close>

text \<open>
  \<^verbatim>\<open>Graph<T>\<close> (graph.hpp is not among the sources) is used through its members
  \<^verbatim>\<open>start_\<close>, \<^verbatim>\<open>succs_\<close> and \<^verbatim>\<open>preds_\<close>, maps from an operation to a set of
  operations. A map is an association list (first match wins), a set the list of its
  elements in iteration order. Operations are compared as the \<^verbatim>\<open>shared_ptr\<close>s are, by
  identity: the type \<open>'op\<close> with HOL equality.
\<close>

record 'op Graph =
  start :: 'op
  succs :: "('op \<times> 'op list) list"
  preds :: "('op \<times> 'op list) list"

text \<open>\<^verbatim>\<open>std::map::at\<close>: raises on a missing key.\<close>

definition map_at :: "('k \<times> 'v) list \<Rightarrow> 'k \<Rightarrow> error + 'v" where
  "map_at m k = (case map_of m k of None \<Rightarrow> Inl OutOfRange | Some v \<Rightarrow> Inr v)"

text \<open>\<^verbatim>\<open>v.erase(v.begin() + i)\<close>.\<close>

definition erase :: "nat \<Rightarrow> 'a list \<Rightarrow> 'a list" where
  "erase i xs = take i xs @ drop (Suc i) xs"

section \<open>Random playout order (\<^verbatim>\<open>Node::get_simulation_order\<close>)\<close>

text \<open>
  The body both frontier loops share: for a successor, compute \<^verbatim>\<open>unique\<close>,
  \<^verbatim>\<open>notDone\<close> and \<^verbatim>\<open>predsDone\<close>, and push it when all three hold.
  \<^verbatim>\<open>g.preds_.at(succ)\<close> is evaluated whatever the first two flags are.
\<close>

definition try_push :: "'op Graph \<Rightarrow> 'op list \<Rightarrow> 'op list \<Rightarrow> 'op \<Rightarrow> error + 'op list" where
  "try_push g path frontier succ =
     (let unique = (succ \<notin> set frontier);
          notDone = (succ \<notin> set path)
      in case map_at (preds g) succ of
           Inl e \<Rightarrow> Inl e
         | Inr ps \<Rightarrow>
             let predsDone = list_all (\<lambda>pred. pred \<in> set path) ps
             in Inr (if unique \<and> notDone \<and> predsDone then frontier @ [succ] else frontier))"

fun push_succs :: "'op Graph \<Rightarrow> 'op list \<Rightarrow> 'op list \<Rightarrow> 'op list \<Rightarrow> error + 'op list" where
  "push_succs g path frontier [] = Inr frontier"
| "push_succs g path frontier (s # ss) =
     (case try_push g path frontier s of
        Inl e \<Rightarrow> Inl e
      | Inr frontier' \<Rightarrow> push_succs g path frontier' ss)"

text \<open>The first loop: over every op of the path and every successor of it.\<close>

fun init_frontier :: "'op Graph \<Rightarrow> 'op list \<Rightarrow> 'op list \<Rightarrow> 'op list \<Rightarrow> error + 'op list" where
  "init_frontier g path frontier [] = Inr frontier"
| "init_frontier g path frontier (op # ops) =
     (case map_at (succs g) op of
        Inl e \<Rightarrow> Inl e
      | Inr ss \<Rightarrow>
          (case push_succs g path frontier ss of
             Inl e \<Rightarrow> Inl e
           | Inr frontier' \<Rightarrow> init_frontier g path frontier' ops))"

text \<open>
  The \<^verbatim>\<open>while (!frontier.empty())\<close> loop terminates because every pass moves one
  operation from the frontier to the path and only pushes operations that are in neither.
  The measure below counts, twice, the operations occurring as a successor in the
  graph that are in neither list, plus the length of the frontier.
\<close>

definition succ_ops :: "'op Graph \<Rightarrow> 'op set" where
  "succ_ops g = (\<Union>(u, ss) \<in> set (succs g). set ss)"

lemma finite_succ_ops: "finite (succ_ops g)"
  by (auto simp: succ_ops_def)

lemma map_at_succs_subset: "map_at (succs g) u = Inr ss \<Longrightarrow> set ss \<subseteq> succ_ops g"
  by (auto simp: map_at_def succ_ops_def split: option.splits dest!: map_of_SomeD)

lemma try_push_shape:
  assumes "try_push g path frontier s = Inr frontier'"
  shows "\<exists>new. frontier' = frontier @ new \<and> distinct new \<and> set new \<subseteq> {s}
       \<and> set new \<inter> (set path \<union> set frontier) = {}"
proof (cases "map_at (preds g) s")
  case (Inl e)
  with assms show ?thesis by (simp add: try_push_def)
next
  case (Inr ps)
  show ?thesis
  proof (cases "s \<notin> set frontier \<and> s \<notin> set path \<and> list_all (\<lambda>pred. pred \<in> set path) ps")
    case True
    with assms Inr have "frontier' = frontier @ [s]" by (simp add: try_push_def)
    with True show ?thesis by (intro exI[of _ "[s]"]) simp
  next
    case False
    with assms Inr have "frontier' = frontier @ []" by (auto simp add: try_push_def)
    then show ?thesis by (intro exI[of _ "[]"]) simp
  qed
qed

lemma push_succs_shape:
  "push_succs g path frontier ss = Inr frontier' \<Longrightarrow>
     \<exists>new. frontier' = frontier @ new \<and> distinct new \<and> set new \<subseteq> set ss
       \<and> set new \<inter> (set path \<union> set frontier) = {}"
proof (induction ss arbitrary: frontier)
  case Nil
  then show ?case by simp
next
  case (Cons s ss)
  from Cons.prems obtain f1 where f1: "try_push g path frontier s = Inr f1"
    and rest: "push_succs g path f1 ss = Inr frontier'"
    by (auto split: sum.splits)
  from try_push_shape[OF f1] obtain n1 where n1: "f1 = frontier @ n1" "distinct n1"
    "set n1 \<subseteq> {s}" "set n1 \<inter> (set path \<union> set frontier) = {}" by blast
  from Cons.IH[OF rest] obtain n2 where n2: "frontier' = f1 @ n2" "distinct n2"
    "set n2 \<subseteq> set ss" "set n2 \<inter> (set path \<union> set f1) = {}" by blast
  have "frontier' = frontier @ (n1 @ n2)" using n1(1) n2(1) by simp
  moreover have "distinct (n1 @ n2)" using n1(1,2) n2(2,4) by auto
  moreover have "set (n1 @ n2) \<subseteq> set (s # ss)" using n1(3) n2(3) by auto
  moreover have "set (n1 @ n2) \<inter> (set path \<union> set frontier) = {}"
    using n1(1,4) n2(4) by auto
  ultimately show ?case by blast
qed

lemma set_erase:
  assumes "i < length xs"
  shows "insert (xs ! i) (set (erase i xs)) = set xs"
proof -
  have "set xs = set (take i xs @ xs ! i # drop (Suc i) xs)"
    using assms by (simp only: id_take_nth_drop[symmetric])
  then show ?thesis by (simp add: erase_def)
qed

lemma length_erase: "i < length xs \<Longrightarrow> length (erase i xs) = length xs - 1"
  by (auto simp: erase_def)

definition sim_measure :: "'op Graph \<Rightarrow> 'op list \<Rightarrow> 'op list \<Rightarrow> nat" where
  "sim_measure g path frontier =
     2 * card (succ_ops g - (set path \<union> set frontier)) + length frontier"

lemma sim_measure_decreases:
  assumes ne: "frontier \<noteq> []" and ii: "ii < length frontier"
    and ss: "map_at (succs g) (frontier ! ii) = Inr ss"
    and push: "push_succs g (path @ [frontier ! ii]) frontier ss = Inr frontier'"
  shows "sim_measure g (path @ [frontier ! ii]) (erase ii frontier') < sim_measure g path frontier"
proof -
  let ?op = "frontier ! ii"
  from push_succs_shape[OF push] obtain new where new: "frontier' = frontier @ new" "distinct new"
    "set new \<subseteq> set ss" "set new \<inter> (set (path @ [?op]) \<union> set frontier) = {}" by blast
  let ?A = "succ_ops g - (set path \<union> set frontier)"
  have ii': "ii < length frontier'" using ii new(1) by simp
  have nth: "frontier' ! ii = ?op" using ii new(1) by (simp add: nth_append)
  have "insert ?op (set (erase ii frontier')) = set frontier'"
    using set_erase[OF ii'] nth by simp
  moreover have "?op \<in> set frontier" using ii by simp
  ultimately have eq: "set (path @ [?op]) \<union> set (erase ii frontier') = set path \<union> set frontier \<union> set new"
    using new(1) by auto
  have sub: "set new \<subseteq> ?A" using new(3,4) map_at_succs_subset[OF ss] by auto
  have "succ_ops g - (set (path @ [?op]) \<union> set (erase ii frontier')) = ?A - set new"
    using eq by auto
  then have c1: "card (succ_ops g - (set (path @ [?op]) \<union> set (erase ii frontier'))) = card (?A - set new)"
    by simp
  have c2: "card (?A - set new) = card ?A - length new"
    using sub new(2) finite_succ_ops[of g]
    by (simp add: card_Diff_subset distinct_card)
  have c3: "length new \<le> card ?A"
    using sub new(2) finite_succ_ops[of g]
    by (metis card_mono distinct_card finite_Diff)
  have c4: "length (erase ii frontier') = length frontier + length new - 1"
    using length_erase[OF ii'] new(1) by simp
  have c5: "length frontier > 0" using ne by simp
  have "sim_measure g (path @ [?op]) (erase ii frontier')
      = 2 * (card ?A - length new) + (length frontier + length new - 1)"
    unfolding sim_measure_def by (simp only: c1 c2 c4)
  moreover have "sim_measure g path frontier = 2 * card ?A + length frontier"
    unfolding sim_measure_def by simp
  ultimately show ?thesis using c3 c5 by linarith
qed

text \<open>
  The loop of mcts_node.hpp. \<open>rnd k\<close> is the value of the \<open>k\<close>-th call of \<^verbatim>\<open>rand()\<close>.
  The op is appended to the path, its successors are examined against the frontier that
  still holds it, and then \<^verbatim>\<open>frontier.erase(frontier.begin() + ii)\<close> removes it.
\<close>

function sim_loop :: "'op Graph \<Rightarrow> (nat \<Rightarrow> nat) \<Rightarrow> nat \<Rightarrow> 'op list \<Rightarrow> 'op list \<Rightarrow> error + 'op list" where
  "sim_loop g rnd k path frontier =
     (if frontier = [] then Inr path
      else
        let ii = rnd k mod length frontier;
            op = frontier ! ii;
            path' = path @ [op]
        in case map_at (succs g) op of
             Inl e \<Rightarrow> Inl e
           | Inr ss \<Rightarrow>
               (case push_succs g path' frontier ss of
                  Inl e \<Rightarrow> Inl e
                | Inr frontier' \<Rightarrow> sim_loop g rnd (Suc k) path' (erase ii frontier')))"
  by pat_completeness auto
termination
proof (relation "measure (\<lambda>(g, rnd, k, path, frontier). sim_measure g path frontier)", goal_cases)
  case 1
  show ?case by simp
next
  case (2 g rnd k path frontier ii op path' ss frontier')
  then show ?case
    using sim_measure_decreases[of frontier "rnd k mod length frontier" g ss path frontier']
    by simp
qed

text \<open>
  \<open>to_root\<close> is the list \<^verbatim>\<open>path\<close> as the walk along \<^verbatim>\<open>parent_\<close> builds it: the node's
  own op first, the root's op last; \<^verbatim>\<open>std::reverse\<close> then puts the root first.
\<close>

definition get_simulation_order :: "'op Graph \<Rightarrow> (nat \<Rightarrow> nat) \<Rightarrow> 'op list \<Rightarrow> error + 'op list" where
  "get_simulation_order g rnd to_root =
     (let path = rev to_root
      in case init_frontier g path [] path of
           Inl e \<Rightarrow> Inl e
         | Inr frontier \<Rightarrow> sim_loop g rnd 0 path frontier)"

declare sim_loop.simps [simp del]

subsection \<open>The loop of mcts.cpp\<close>

text \<open>
  \<^verbatim>\<open>Node::get_simulation_order\<close> of mcts.cpp differs in one place: the chosen op is erased
  from the frontier before its successors are examined. The lemmas show that the
  same measure decreases.
\<close>

lemma erase_append: "i < length xs \<Longrightarrow> erase i (xs @ ys) = erase i xs @ ys"
  by (simp add: erase_def)

lemma try_push_erase:
  assumes "ii < length frontier" and "frontier ! ii \<in> set path"
  shows "try_push g path (erase ii frontier) s = map_sum id (erase ii) (try_push g path frontier s)"
proof (cases "map_at (preds g) s")
  case (Inl e)
  then show ?thesis by (simp add: try_push_def)
next
  case (Inr ps)
  have ins: "insert (frontier ! ii) (set (erase ii frontier)) = set frontier"
    using assms(1) by (rule set_erase)
  have mem: "(s \<in> set (erase ii frontier)) = (s \<in> set frontier)" if "s \<notin> set path"
  proof
    assume "s \<in> set (erase ii frontier)"
    then show "s \<in> set frontier" using ins by blast
  next
    assume "s \<in> set frontier"
    then have "s \<in> insert (frontier ! ii) (set (erase ii frontier))" using ins by simp
    moreover have "s \<noteq> frontier ! ii" using that assms(2) by blast
    ultimately show "s \<in> set (erase ii frontier)" by simp
  qed
  show ?thesis
  proof (cases "s \<notin> set path")
    case True
    with mem Inr assms(1) show ?thesis by (simp add: try_push_def erase_append)
  next
    case False
    with Inr show ?thesis by (simp add: try_push_def)
  qed
qed

lemma push_succs_erase:
  "ii < length frontier \<Longrightarrow> frontier ! ii \<in> set path \<Longrightarrow>
     push_succs g path (erase ii frontier) ss = map_sum id (erase ii) (push_succs g path frontier ss)"
proof (induction ss arbitrary: frontier)
  case Nil
  then show ?case by simp
next
  case (Cons s ss)
  show ?case
  proof (cases "try_push g path frontier s")
    case (Inl e)
    then show ?thesis using try_push_erase[OF Cons.prems, of g s] by simp
  next
    case (Inr f1)
    from try_push_shape[OF Inr] obtain new where new: "f1 = frontier @ new" by blast
    then have 1: "ii < length f1" and 2: "f1 ! ii \<in> set path"
      using Cons.prems by (simp_all add: nth_append)
    have "try_push g path (erase ii frontier) s = Inr (erase ii f1)"
      using try_push_erase[OF Cons.prems, of g s] Inr by simp
    then show ?thesis using Inr Cons.IH[OF 1 2] by simp
  qed
qed

lemma sim_measure_decreases_cpp:
  assumes ne: "frontier \<noteq> []" and ii: "ii < length frontier"
    and ss: "map_at (succs g) (frontier ! ii) = Inr ss"
    and push: "push_succs g (path @ [frontier ! ii]) (erase ii frontier) ss = Inr frontier'"
  shows "sim_measure g (path @ [frontier ! ii]) frontier' < sim_measure g path frontier"
proof -
  have mem: "frontier ! ii \<in> set (path @ [frontier ! ii])" by simp
  from push push_succs_erase[OF ii mem, of g ss]
  obtain f1 where f1: "push_succs g (path @ [frontier ! ii]) frontier ss = Inr f1"
    and eq: "frontier' = erase ii f1"
    by (cases "push_succs g (path @ [frontier ! ii]) frontier ss") auto
  from sim_measure_decreases[OF ne ii ss f1] eq show ?thesis by simp
qed

function sim_loop_cpp :: "'op Graph \<Rightarrow> (nat \<Rightarrow> nat) \<Rightarrow> nat \<Rightarrow> 'op list \<Rightarrow> 'op list \<Rightarrow> error + 'op list" where
  "sim_loop_cpp g rnd k path frontier =
     (if frontier = [] then Inr path
      else
        let it = rnd k mod length frontier;
            op = frontier ! it;
            frontier1 = erase it frontier;
            path' = path @ [op]
        in case map_at (succs g) op of
             Inl e \<Rightarrow> Inl e
           | Inr ss \<Rightarrow>
               (case push_succs g path' frontier1 ss of
                  Inl e \<Rightarrow> Inl e
                | Inr frontier' \<Rightarrow> sim_loop_cpp g rnd (Suc k) path' frontier'))"
  by pat_completeness auto
termination
proof (relation "measure (\<lambda>(g, rnd, k, path, frontier). sim_measure g path frontier)", goal_cases)
  case 1
  show ?case by simp
next
  case (2 g rnd k path frontier it op frontier1 path' ss frontier')
  then show ?case
    using sim_measure_decreases_cpp[of frontier "rnd k mod length frontier" g ss path frontier']
    by simp
qed

definition get_simulation_order_cpp :: "'op Graph \<Rightarrow> (nat \<Rightarrow> nat) \<Rightarrow> 'op list \<Rightarrow> error + 'op list" where
  "get_simulation_order_cpp g rnd to_root =
     (let path = rev to_root
      in case init_frontier g path [] path of
           Inl e \<Rightarrow> Inl e
         | Inr frontier \<Rightarrow> sim_loop_cpp g rnd 0 path frontier)"

declare sim_loop_cpp.simps [simp del]

section \<open>MCTS node (mcts_node.hpp)\<close>

text \<open>
  \<^verbatim>\<open>Node<Strategy>\<close> owns its children by value (\<^verbatim>\<open>std::vector<Node>\<close>), so a search
  tree is a value of the datatype below. The back pointer \<^verbatim>\<open>parent_\<close> is not a field: a
  node is addressed by its location, the list of child indices leading to it from the
  root, and its parent is the node at the location without the last index.
  \<^verbatim>\<open>valueEstimate_\<close> is set by the constructor and never read or written in these
  sources; it is left out. \<^verbatim>\<open>n_\<close> is a \<^verbatim>\<open>size_t\<close>, modelled as a natural number (the
  counter cannot reach \<open>2^64\<close> playouts). The strategy's \<^verbatim>\<open>State\<close> is used through its
  member \<^verbatim>\<open>times\<close> only.
\<close>

record 't State =
  times :: "'t list"

datatype ('op, 't) Node =
  Node (op_of: 'op) (children: "('op, 't) Node list") (expanded: bool) (fullyVisited: bool)
       (n_of: nat) (state: "'t State")

definition new_Node :: "'op \<Rightarrow> ('op, 't) Node" where
  "new_Node op = Node op [] False False 0 \<lparr>times = []\<rparr>"

definition is_leaf :: "('op, 't) Node \<Rightarrow> bool" where
  "is_leaf nd = (children nd = [] \<or> list_ex (\<lambda>child. times (state child) = []) (children nd))"

definition is_terminal :: "'op Graph \<Rightarrow> ('op, 't) Node \<Rightarrow> error + bool" where
  "is_terminal g nd = (case map_at (succs g) (op_of nd) of Inl e \<Rightarrow> Inl e | Inr ss \<Rightarrow> Inr (ss = []))"

text \<open>
  \<^verbatim>\<open>Strategy::backprop(ctx, *this, br)\<close> is a parameter: from the context, the node and the
  benchmark result it gives the new context and the node's new \<^verbatim>\<open>state_\<close>. It receives
  the node by reference; it is taken to write the node's \<^verbatim>\<open>state_\<close> only, which is what
  the spec's strategy contract says (update the state from the result).
\<close>

type_synonym ('ctx, 'br, 'op, 't) strategy_backprop =
  "'ctx \<Rightarrow> ('op, 't) Node \<Rightarrow> 'br \<Rightarrow> 'ctx \<times> 't State"

text \<open>
  What \<^verbatim>\<open>Node::backprop\<close> does to the node it is called on, before it calls its parent.
\<close>

fun backprop_node ::
  "('ctx, 'br, 'op, 't) strategy_backprop \<Rightarrow> 'br \<Rightarrow> 'ctx \<Rightarrow> ('op, 't) Node \<Rightarrow> 'ctx \<times> ('op, 't) Node" where
  "backprop_node sb br ctx (Node op cs ex fv n st) =
     (let n' = n + 1;
          fv' = (if cs = []
                 then (if ex then ex else fv)
                 else (let allChildrenVisited = foldl (\<lambda>a child. a \<and> fullyVisited child) True cs
                       in if allChildrenVisited then True else fv));
          (ctx', st') = sb ctx (Node op cs ex fv' n' st) br
      in (ctx', Node op cs ex fv' n' st'))"

text \<open>
  \<open>backprop sb br loc ctx root\<close> is \<^verbatim>\<open>backprop(ctx, br)\<close> called on the node at location
  \<open>loc\<close> of the tree \<open>root\<close>: the node is updated first, then its parent (which sees the
  updated child in its \<^verbatim>\<open>children_\<close>), and so on up to the root, whose \<^verbatim>\<open>parent_\<close> is null.
  A location that names no node leaves the tree as it is: there is no node to call.
  \<open>node_at\<close> reads the node at a location.
\<close>

fun backprop ::
  "('ctx, 'br, 'op, 't) strategy_backprop \<Rightarrow> 'br \<Rightarrow> nat list \<Rightarrow> 'ctx \<Rightarrow> ('op, 't) Node \<Rightarrow> 'ctx \<times> ('op, 't) Node" where
  "backprop sb br [] ctx nd = backprop_node sb br ctx nd"
| "backprop sb br (i # loc) ctx (Node op cs ex fv n st) =
     (if i < length cs
      then (let (ctx', child') = backprop sb br loc ctx (cs ! i)
            in backprop_node sb br ctx' (Node op (cs[i := child']) ex fv n st))
      else (ctx, Node op cs ex fv n st))"

fun node_at :: "('op, 't) Node \<Rightarrow> nat list \<Rightarrow> ('op, 't) Node option" where
  "node_at nd [] = Some nd"
| "node_at nd (i # loc) = (if i < length (children nd) then node_at (children nd ! i) loc else None)"

subsection \<open>\<^verbatim>\<open>Node::expand\<close>\<close>

text \<open>
  \<^verbatim>\<open>while (true) { it = find(frontier, op); if (it != end) frontier.erase(it); else break; }\<close>
\<close>

function erase_all :: "'a \<Rightarrow> 'a list \<Rightarrow> 'a list" where
  "erase_all x xs = (if x \<in> set xs then erase_all x (remove1 x xs) else xs)"
  by pat_completeness auto
termination
  by (relation "measure (\<lambda>(x, xs). length xs)") (auto simp: length_remove1 dest!: length_pos_if_in_set)

text \<open>The first loop of \<^verbatim>\<open>expand\<close>: each successor of each op of the path, once.\<close>

fun collect_succs :: "'op Graph \<Rightarrow> 'op list \<Rightarrow> 'op list \<Rightarrow> error + 'op list" where
  "collect_succs g frontier [] = Inr frontier"
| "collect_succs g frontier (op # path) =
     (case map_at (succs g) op of
        Inl e \<Rightarrow> Inl e
      | Inr ss \<Rightarrow>
          collect_succs g (foldl (\<lambda>f child. if child \<notin> set f then f @ [child] else f) frontier ss) path)"

text \<open>
  One pass of the \<^verbatim>\<open>for (fi ...)\<close> loop inside \<^verbatim>\<open>while (changed)\<close>: the index of the
  first frontier op with a predecessor that is not in the path, if there is one.
\<close>

fun find_incomplete :: "'op Graph \<Rightarrow> 'op list \<Rightarrow> 'op list \<Rightarrow> error + nat option" where
  "find_incomplete g path [] = Inr None"
| "find_incomplete g path (f # fs) =
     (case map_at (preds g) f of
        Inl e \<Rightarrow> Inl e
      | Inr ps \<Rightarrow>
          if list_ex (\<lambda>pred. pred \<notin> set path) ps then Inr (Some 0)
          else (case find_incomplete g path fs of
                  Inl e \<Rightarrow> Inl e
                | Inr None \<Rightarrow> Inr None
                | Inr (Some i) \<Rightarrow> Inr (Some (Suc i))))"

lemma find_incomplete_less: "find_incomplete g path fs = Inr (Some i) \<Longrightarrow> i < length fs"
  by (induction fs arbitrary: i) (auto split: sum.splits if_splits option.splits)

text \<open>The \<^verbatim>\<open>while (changed)\<close> loop: erase that op and start over.\<close>

function prune :: "'op Graph \<Rightarrow> 'op list \<Rightarrow> 'op list \<Rightarrow> error + 'op list" where
  "prune g path frontier =
     (case find_incomplete g path frontier of
        Inl e \<Rightarrow> Inl e
      | Inr None \<Rightarrow> Inr frontier
      | Inr (Some i) \<Rightarrow> prune g path (erase i frontier))"
  by pat_completeness auto
termination
  by (relation "measure (\<lambda>(g, path, frontier). length frontier)")
     (auto dest!: find_incomplete_less simp: length_erase)

text \<open>
  The block under \<^verbatim>\<open>if (!expanded_)\<close>. \<open>path\<close> is the node's own op followed by its
  ancestors' ops up to the root. Nothing is written to the node before the last lookup
  that can raise, so an error leaves the tree as it was.
\<close>

definition make_children :: "'op Graph \<Rightarrow> 'op list \<Rightarrow> ('op, 't) Node \<Rightarrow> error + ('op, 't) Node" where
  "make_children g path nd =
     (case collect_succs g [] path of
        Inl e \<Rightarrow> Inl e
      | Inr frontier1 \<Rightarrow>
          (case prune g path (foldl (\<lambda>f op. erase_all op f) frontier1 path) of
             Inl e \<Rightarrow> Inl e
           | Inr frontier \<Rightarrow>
               Inr (Node (op_of nd) (children nd @ map new_Node frontier) True (fullyVisited nd)
                      (n_of nd) (state nd))))"

definition generate_children :: "'op Graph \<Rightarrow> 'op list \<Rightarrow> ('op, 't) Node \<Rightarrow> error + ('op, 't) Node" where
  "generate_children g ancestors nd =
     (if \<not> expanded nd then make_children g (op_of nd # ancestors) nd else Inr nd)"

text \<open>
  The loop \<^verbatim>\<open>for (auto &child : children_) if (child.state_.times.empty()) return child;\<close>
\<close>

fun first_unplayed :: "('op, 't) Node list \<Rightarrow> nat option" where
  "first_unplayed [] = None"
| "first_unplayed (child # cs) =
     (if times (state child) = [] then Some 0 else map_option Suc (first_unplayed cs))"

text \<open>
  \<open>expand g ancestors nd\<close> gives the node after the call and the reference returned:
  \<open>None\<close> for \<^verbatim>\<open>*this\<close>, \<open>Some i\<close> for \<^verbatim>\<open>children_[i]\<close>.
\<close>

definition expand :: "'op Graph \<Rightarrow> 'op list \<Rightarrow> ('op, 't) Node \<Rightarrow> error + ('op, 't) Node \<times> nat option" where
  "expand g ancestors nd =
     (case generate_children g ancestors nd of
        Inl e \<Rightarrow> Inl e
      | Inr nd' \<Rightarrow>
          if children nd' = [] then Inr (nd', None)
          else (case first_unplayed (children nd') of
                  Some i \<Rightarrow> Inr (nd', Some i)
                | None \<Rightarrow> Inl Unreachable))"

declare prune.simps [simp del] erase_all.simps [simp del]

section \<open>The node and the driver of mcts.cpp\<close>

text \<open>
  mcts.cpp has a \<^verbatim>\<open>struct Node\<close> of its own, without a strategy: the playout times are a
  member \<^verbatim>\<open>times_\<close> of the node.
\<close>

datatype ('op, 't) PlainNode =
  PlainNode (p_op: 'op) (p_children: "('op, 't) PlainNode list") (p_times: "'t list") (p_expanded: bool)

definition new_PlainNode :: "'op \<Rightarrow> ('op, 't) PlainNode" where
  "new_PlainNode op = PlainNode op [] [] False"

definition p_is_leaf :: "('op, 't) PlainNode \<Rightarrow> bool" where
  "p_is_leaf nd = (p_children nd = [] \<or> list_ex (\<lambda>child. p_times child = []) (p_children nd))"

definition p_is_terminal :: "'op Graph \<Rightarrow> ('op, 't) PlainNode \<Rightarrow> error + bool" where
  "p_is_terminal g nd = (case map_at (succs g) (p_op nd) of Inl e \<Rightarrow> Inl e | Inr ss \<Rightarrow> Inr (ss = []))"

text \<open>
  The argmax loop of \<^verbatim>\<open>select\<close>: \<^verbatim>\<open>m\<close> starts at minus infinity and \<^verbatim>\<open>im\<close> at 0; index
  \<open>i\<close> replaces them when \<^verbatim>\<open>ucts[i] > m\<close>. The floating-point values stay abstract:
  the type \<open>'f\<close> with the comparison \<open>gt\<close>.
\<close>

fun argmax_from :: "('f \<Rightarrow> 'f \<Rightarrow> bool) \<Rightarrow> 'f list \<Rightarrow> nat \<Rightarrow> 'f \<Rightarrow> nat \<Rightarrow> nat" where
  "argmax_from gt [] i m im = im"
| "argmax_from gt (u # us) i m im =
     (if gt u m then argmax_from gt us (Suc i) u i else argmax_from gt us (Suc i) m im)"

lemma argmax_from_range:
  "argmax_from gt us i m im = im \<or> (i \<le> argmax_from gt us i m im \<and> argmax_from gt us i m im < i + length us)"
proof (induction us arbitrary: i m im)
  case Nil
  then show ?case by simp
next
  case (Cons u us)
  show ?case
  proof (cases "gt u m")
    case True
    with Cons[of "Suc i" u i] show ?thesis by auto
  next
    case False
    with Cons[of "Suc i" m im] show ?thesis by auto
  qed
qed

lemma argmax_from_bound: "us \<noteq> [] \<Longrightarrow> argmax_from gt us 0 m 0 < length us"
  using argmax_from_range[of gt us 0 m 0] by auto

lemma size_nth_child: "i < length cs \<Longrightarrow> size (cs ! i) < Suc (size_list size cs)"
  by (metis less_Suc_eq_le nth_mem order_refl size_list_estimation')

text \<open>
  \<^verbatim>\<open>Node::select\<close>. The result is the location of the node returned, relative to the
  node it is called on. The score of a child (computed in \<^verbatim>\<open>float\<close> from the context and
  the two nodes' times) is the parameter \<open>uct\<close>; \<^verbatim>\<open>is_terminal\<close> is evaluated only when
  \<^verbatim>\<open>is_leaf()\<close> is false.
\<close>

function p_select ::
  "('ctx \<Rightarrow> ('op, 't) PlainNode \<Rightarrow> ('op, 't) PlainNode \<Rightarrow> 'f) \<Rightarrow> ('f \<Rightarrow> 'f \<Rightarrow> bool) \<Rightarrow> 'f \<Rightarrow>
   'ctx \<Rightarrow> 'op Graph \<Rightarrow> ('op, 't) PlainNode \<Rightarrow> error + nat list" where
  "p_select uct gt neg_inf ctx g nd =
     (if p_is_leaf nd then Inr []
      else case p_is_terminal g nd of
             Inl e \<Rightarrow> Inl e
           | Inr True \<Rightarrow> Inr []
           | Inr False \<Rightarrow>
               let ucts = map (uct ctx nd) (p_children nd);
                   im = argmax_from gt ucts 0 neg_inf 0
               in (case p_select uct gt neg_inf ctx g (p_children nd ! im) of
                     Inl e \<Rightarrow> Inl e
                   | Inr loc \<Rightarrow> Inr (im # loc)))"
  by pat_completeness auto
termination
proof (relation "measure (\<lambda>(uct, gt, neg_inf, ctx, g, nd). size nd)", goal_cases)
  case 1
  show ?case by simp
next
  case (2 uct gt neg_inf ctx g nd x2 ucts im)
  obtain op cs ts ex where nd: "nd = PlainNode op cs ts ex" by (cases nd)
  from 2(1) have "cs \<noteq> []" by (simp add: p_is_leaf_def nd)
  then have "im < length cs"
    using argmax_from_bound[of ucts gt neg_inf] 2(4,5) by (simp add: nd)
  then show ?case using size_nth_child[of im cs] by (simp add: nd)
qed

declare p_select.simps [simp del]

text \<open>\<^verbatim>\<open>Node::expand\<close> of mcts.cpp pushes every successor, duplicates included.\<close>

fun collect_all_succs :: "'op Graph \<Rightarrow> 'op list \<Rightarrow> 'op list \<Rightarrow> error + 'op list" where
  "collect_all_succs g frontier [] = Inr frontier"
| "collect_all_succs g frontier (op # path) =
     (case map_at (succs g) op of
        Inl e \<Rightarrow> Inl e
      | Inr ss \<Rightarrow> collect_all_succs g (frontier @ ss) path)"

definition p_make_children :: "'op Graph \<Rightarrow> 'op list \<Rightarrow> ('op, 't) PlainNode \<Rightarrow> error + ('op, 't) PlainNode" where
  "p_make_children g path nd =
     (case collect_all_succs g [] path of
        Inl e \<Rightarrow> Inl e
      | Inr frontier1 \<Rightarrow>
          (case prune g path (foldl (\<lambda>f op. erase_all op f) frontier1 path) of
             Inl e \<Rightarrow> Inl e
           | Inr frontier \<Rightarrow>
               Inr (PlainNode (p_op nd) (p_children nd @ map new_PlainNode frontier) (p_times nd) True)))"

fun p_first_unplayed :: "('op, 't) PlainNode list \<Rightarrow> nat option" where
  "p_first_unplayed [] = None"
| "p_first_unplayed (child # cs) =
     (if p_times child = [] then Some 0 else map_option Suc (p_first_unplayed cs))"

definition p_expand :: "'op Graph \<Rightarrow> 'op list \<Rightarrow> ('op, 't) PlainNode \<Rightarrow> error + ('op, 't) PlainNode \<times> nat option" where
  "p_expand g ancestors nd =
     (case p_is_terminal g nd of
        Inl e \<Rightarrow> Inl e
      | Inr True \<Rightarrow> Inr (nd, None)
      | Inr False \<Rightarrow>
          (case (if \<not> p_expanded nd then p_make_children g (p_op nd # ancestors) nd else Inr nd) of
             Inl e \<Rightarrow> Inl e
           | Inr nd' \<Rightarrow>
               if p_children nd' = [] then Inr (nd', None)
               else (case p_first_unplayed (p_children nd') of
                       Some i \<Rightarrow> Inr (nd', Some i)
                     | None \<Rightarrow> Inl Unreachable)))"

text \<open>
  \<open>p_expand_at g ancestors loc nd\<close> expands the node at location \<open>loc\<close> under \<open>nd\<close> and gives
  the tree afterwards with the location of the node \<^verbatim>\<open>expand\<close> returned. A location
  that \<^verbatim>\<open>select\<close> returns always exists; for one that does not, the tree is returned
  as it is.
\<close>

fun p_expand_at :: "'op Graph \<Rightarrow> 'op list \<Rightarrow> nat list \<Rightarrow> ('op, 't) PlainNode \<Rightarrow> error + ('op, 't) PlainNode \<times> nat list" where
  "p_expand_at g ancestors [] nd =
     (case p_expand g ancestors nd of
        Inl e \<Rightarrow> Inl e
      | Inr (nd', None) \<Rightarrow> Inr (nd', [])
      | Inr (nd', Some i) \<Rightarrow> Inr (nd', [i]))"
| "p_expand_at g ancestors (i # loc) (PlainNode op cs ts ex) =
     (if i < length cs
      then (case p_expand_at g (op # ancestors) loc (cs ! i) of
              Inl e \<Rightarrow> Inl e
            | Inr (child', loc') \<Rightarrow> Inr (PlainNode op (cs[i := child']) ts ex, i # loc'))
      else Inr (PlainNode op cs ts ex, []))"

text \<open>The ops from the root down to the node at a location.\<close>

fun p_path :: "('op, 't) PlainNode \<Rightarrow> nat list \<Rightarrow> 'op list" where
  "p_path nd [] = [p_op nd]"
| "p_path nd (i # loc) = p_op nd # (if i < length (p_children nd) then p_path (p_children nd ! i) loc else [])"

text \<open>
  \<^verbatim>\<open>Node::backprop(double med)\<close>: push the time, sort, and tell the parent to do the same.
\<close>

fun p_backprop :: "('t::linorder) \<Rightarrow> nat list \<Rightarrow> ('op, 't) PlainNode \<Rightarrow> ('op, 't) PlainNode" where
  "p_backprop med [] (PlainNode op cs ts ex) = PlainNode op cs (sort (ts @ [med])) ex"
| "p_backprop med (i # loc) (PlainNode op cs ts ex) =
     (if i < length cs
      then PlainNode op (cs[i := p_backprop med loc (cs ! i)]) (sort (ts @ [med])) ex
      else PlainNode op cs ts ex)"

text \<open>
  One pass of the loop of \<^verbatim>\<open>mcts(g, comm)\<close> on rank 0: \<^verbatim>\<open>select\<close>, \<^verbatim>\<open>expand\<close>,
  \<^verbatim>\<open>get_simulation_order\<close>, \<^verbatim>\<open>mpi_bcast\<close>. The rest of the body is between \<^verbatim>\<open>#if 0\<close> and
  \<^verbatim>\<open>#endif\<close> and is not compiled. The context is read, never written. \<open>rnd\<close> is the
  sequence of random numbers drawn in this pass. The list of all vertices that every
  rank first stores in \<^verbatim>\<open>order\<close> is overwritten on rank 0 before it is read.
\<close>

definition mcts_iteration ::
  "('ctx \<Rightarrow> ('op, 't) PlainNode \<Rightarrow> ('op, 't) PlainNode \<Rightarrow> 'f) \<Rightarrow> ('f \<Rightarrow> 'f \<Rightarrow> bool) \<Rightarrow> 'f \<Rightarrow> ('op \<Rightarrow> string) \<Rightarrow>
   'ctx \<Rightarrow> 'op Graph \<Rightarrow> (nat \<Rightarrow> nat) \<Rightarrow> ('op, 't) PlainNode \<Rightarrow> error + ('op, 't) PlainNode \<times> 'op list" where
  "mcts_iteration uct gt neg_inf name ctx g rnd root =
     (case p_select uct gt neg_inf ctx g root of
        Inl e \<Rightarrow> Inl e
      | Inr selected \<Rightarrow>
          (case p_expand_at g [] selected root of
             Inl e \<Rightarrow> Inl e
           | Inr (root', child) \<Rightarrow>
               (case get_simulation_order_cpp g rnd (rev (p_path root' child)) of
                  Inl e \<Rightarrow> Inl e
                | Inr order \<Rightarrow>
                    (case mpi_bcast name 0 order order of
                       Inl e \<Rightarrow> Inl e
                     | Inr order' \<Rightarrow> Inr (root', order')))))"

text \<open>
  \<^verbatim>\<open>for (int i = 0; i < 10; ++i)\<close>, counted by the number of passes that remain, and
  \<^verbatim>\<open>mcts\<close> itself, which starts from \<^verbatim>\<open>Node root(g.start_)\<close>. The tree is returned in
  place of the \<^verbatim>\<open>Result\<close>, whose \<^verbatim>\<open>simResults\<close> nothing fills.
\<close>

fun mcts_loop ::
  "('ctx \<Rightarrow> ('op, 't) PlainNode \<Rightarrow> ('op, 't) PlainNode \<Rightarrow> 'f) \<Rightarrow> ('f \<Rightarrow> 'f \<Rightarrow> bool) \<Rightarrow> 'f \<Rightarrow> ('op \<Rightarrow> string) \<Rightarrow>
   'ctx \<Rightarrow> 'op Graph \<Rightarrow> (nat \<Rightarrow> nat \<Rightarrow> nat) \<Rightarrow> nat \<Rightarrow> nat \<Rightarrow> ('op, 't) PlainNode \<Rightarrow> error + ('op, 't) PlainNode" where
  "mcts_loop uct gt neg_inf name ctx g rnd i 0 root = Inr root"
| "mcts_loop uct gt neg_inf name ctx g rnd i (Suc remaining) root =
     (case mcts_iteration uct gt neg_inf name ctx g (rnd i) root of
        Inl e \<Rightarrow> Inl e
      | Inr (root', order) \<Rightarrow> mcts_loop uct gt neg_inf name ctx g rnd (Suc i) remaining root')"

definition mcts ::
  "('ctx \<Rightarrow> ('op, 't) PlainNode \<Rightarrow> ('op, 't) PlainNode \<Rightarrow> 'f) \<Rightarrow> ('f \<Rightarrow> 'f \<Rightarrow> bool) \<Rightarrow> 'f \<Rightarrow> ('op \<Rightarrow> string) \<Rightarrow>
   'ctx \<Rightarrow> 'op Graph \<Rightarrow> (nat \<Rightarrow> nat \<Rightarrow> nat) \<Rightarrow> error + ('op, 't) PlainNode" where
  "mcts uct gt neg_inf name ctx g rnd = mcts_loop uct gt neg_inf name ctx g rnd 0 10 (new_PlainNode (start g))"

section \<open>Frontier of a partial schedule (mcts_node.cpp, \<^verbatim>\<open>get_frontier\<close>)\<close>

text \<open>
  The operations a sequence can hold (\<^verbatim>\<open>BoundOp\<close>): a CPU operation (the type \<open>'c\<close>), a
  GPU operation bound to a stream, or one of the synchronization operations of
  ops_cuda.hpp. A vertex of the graph (\<^verbatim>\<open>OpBase\<close>) is an unbound GPU operation or a bound
  operation.
\<close>

datatype ('c, 'g) BoundOp =
    Cpu_op 'c
  | BoundGpu_op "'g BoundGpuOp"
  | StreamWait_op StreamWait
  | StreamSync_op StreamSync
  | EventRecord_op CudaEventRecord
  | StreamWaitEvent_op CudaStreamWaitEvent
  | EventSync_op CudaEventSync

datatype ('c, 'g) OpBase =
    Gpu_op 'g
  | Bound_op "('c, 'g) BoundOp"

fun is_sync_op :: "('c, 'g) BoundOp \<Rightarrow> bool" where
  "is_sync_op (Cpu_op c) = False"
| "is_sync_op (BoundGpu_op b) = False"
| "is_sync_op (StreamWait_op s) = True"
| "is_sync_op (StreamSync_op s) = True"
| "is_sync_op (EventRecord_op r) = True"
| "is_sync_op (StreamWaitEvent_op w) = True"
| "is_sync_op (EventSync_op s) = True"

text \<open>
  Modelled from the spec: the virtual \<^verbatim>\<open>eq\<close> that the macro \<^verbatim>\<open>EQ_DEF\<close> of operation.hpp
  generates (the header is not among the sources). The spec: equality of BoundOps
  considers the variant and the relevant fields. Two operations of the same variant are
  compared by that class's \<^verbatim>\<open>operator==\<close>; operations of different variants are unequal.
\<close>

definition BoundOp_eq :: "('c \<Rightarrow> 'c \<Rightarrow> bool) \<Rightarrow> ('g \<Rightarrow> 'g \<Rightarrow> bool) \<Rightarrow> ('c, 'g) BoundOp \<Rightarrow> ('c, 'g) BoundOp \<Rightarrow> bool" where
  "BoundOp_eq cpu_eq gpu_eq lhs rhs =
     (case lhs of
        Cpu_op a \<Rightarrow> (case rhs of Cpu_op b \<Rightarrow> cpu_eq a b | _ \<Rightarrow> False)
      | BoundGpu_op a \<Rightarrow> (case rhs of BoundGpu_op b \<Rightarrow> BoundGpuOp_eq gpu_eq a b | _ \<Rightarrow> False)
      | StreamWait_op a \<Rightarrow> (case rhs of StreamWait_op b \<Rightarrow> StreamWait_eq a b | _ \<Rightarrow> False)
      | StreamSync_op a \<Rightarrow> (case rhs of StreamSync_op b \<Rightarrow> StreamSync_eq a b | _ \<Rightarrow> False)
      | EventRecord_op a \<Rightarrow> (case rhs of EventRecord_op b \<Rightarrow> CudaEventRecord_eq a b | _ \<Rightarrow> False)
      | StreamWaitEvent_op a \<Rightarrow> (case rhs of StreamWaitEvent_op b \<Rightarrow> CudaStreamWaitEvent_eq a b | _ \<Rightarrow> False)
      | EventSync_op a \<Rightarrow> (case rhs of EventSync_op b \<Rightarrow> CudaEventSync_eq a b | _ \<Rightarrow> False))"

text \<open>
  Modelled from the spec: \<^verbatim>\<open>keep_uniques\<close> (not among the sources). The spec: deduplicate
  the result by value-equality. The first of any two equal elements is kept.
\<close>

fun keep_uniques :: "('a \<Rightarrow> 'a \<Rightarrow> bool) \<Rightarrow> 'a list \<Rightarrow> 'a list" where
  "keep_uniques eq [] = []"
| "keep_uniques eq (x # xs) = x # keep_uniques eq (filter (\<lambda>y. \<not> eq x y) xs)"

text \<open>\<^verbatim>\<open>BoundGpuOp::unbound()\<close> returns \<^verbatim>\<open>op_\<close>; other bound operations have no unbound form.\<close>

fun unbound :: "('c, 'g) BoundOp \<Rightarrow> ('c, 'g) OpBase option" where
  "unbound (BoundGpu_op b) = Some (Gpu_op (bgo_op b))"
| "unbound b = None"

text \<open>
  Modelled from the spec: \<^verbatim>\<open>Graph::succs_find_or_find_unbound\<close> (graph.hpp is not among the
  sources). The spec: looks up by identity, falling back to looking up by the unbound
  form of a bound operation.
\<close>

definition succs_find_or_find_unbound :: "('c, 'g) OpBase Graph \<Rightarrow> ('c, 'g) BoundOp \<Rightarrow> ('c, 'g) OpBase list option" where
  "succs_find_or_find_unbound g op =
     (case map_of (succs g) (Bound_op op) of
        Some ss \<Rightarrow> Some ss
      | None \<Rightarrow> (case unbound op of None \<Rightarrow> None | Some u \<Rightarrow> map_of (succs g) u))"

text \<open>The first loop: every successor of a completed op, once.\<close>

definition push_unique :: "'a list \<Rightarrow> 'a list \<Rightarrow> 'a list" where
  "push_unique acc ss = foldl (\<lambda>a succ. if succ \<notin> set a then a @ [succ] else a) acc ss"

definition one_pred_completed :: "('c, 'g) OpBase Graph \<Rightarrow> ('c, 'g) BoundOp list \<Rightarrow> ('c, 'g) OpBase list" where
  "one_pred_completed g completed =
     foldl (\<lambda>acc cOp. case succs_find_or_find_unbound g cOp of
                         None \<Rightarrow> acc
                       | Some ss \<Rightarrow> push_unique acc ss) [] completed"

text \<open>
  The second loop: reject what is already done and what has a predecessor that is not.
  \<^verbatim>\<open>Sequence::contains_unbound\<close> (sequence.hpp is not among the sources) is a parameter.
\<close>

fun select_candidates ::
  "('c, 'g) OpBase Graph \<Rightarrow> (('c, 'g) BoundOp list \<Rightarrow> ('c, 'g) OpBase \<Rightarrow> bool) \<Rightarrow> ('c, 'g) BoundOp list \<Rightarrow>
   ('c, 'g) OpBase list \<Rightarrow> error + ('c, 'g) OpBase list" where
  "select_candidates g contains_unbound completed [] = Inr []"
| "select_candidates g contains_unbound completed (cOp # rest) =
     (if contains_unbound completed cOp
      then select_candidates g contains_unbound completed rest
      else (case map_at (preds g) cOp of
              Inl e \<Rightarrow> Inl e
            | Inr ps \<Rightarrow>
                let allPredsCompleted = list_all (contains_unbound completed) ps
                in if \<not> allPredsCompleted
                   then select_candidates g contains_unbound completed rest
                   else (case select_candidates g contains_unbound completed rest of
                           Inl e \<Rightarrow> Inl e
                         | Inr candidates \<Rightarrow> Inr (cOp # candidates))))"

text \<open>
  The third loop. \<^verbatim>\<open>make_platform_variations\<close>, \<^verbatim>\<open>EventSynchronizer::is_synced\<close> and
  \<^verbatim>\<open>EventSynchronizer::make_syncs\<close> are not among the sources and are parameters;
  \<^verbatim>\<open>make_platform_variations\<close> takes the platform by reference, so it returns the
  platform with its variations.
\<close>

definition variation_frontier ::
  "(('c, 'g) BoundOp \<Rightarrow> 'gr \<Rightarrow> 'sq \<Rightarrow> bool) \<Rightarrow> (('c, 'g) BoundOp \<Rightarrow> 'gr \<Rightarrow> 'sq \<Rightarrow> ('c, 'g) BoundOp list) \<Rightarrow>
   'gr \<Rightarrow> 'sq \<Rightarrow> ('c, 'g) BoundOp list \<Rightarrow> ('c, 'g) BoundOp list" where
  "variation_frontier is_synced make_syncs g completed bounds =
     concat (map (\<lambda>bound. if is_synced bound g completed then [bound]
                           else make_syncs bound g completed) bounds)"

fun candidates_frontier ::
  "('plat \<Rightarrow> ('c, 'g) OpBase \<Rightarrow> ('c, 'g) BoundOp list \<times> 'plat) \<Rightarrow>
   (('c, 'g) BoundOp \<Rightarrow> 'gr \<Rightarrow> 'sq \<Rightarrow> bool) \<Rightarrow> (('c, 'g) BoundOp \<Rightarrow> 'gr \<Rightarrow> 'sq \<Rightarrow> ('c, 'g) BoundOp list) \<Rightarrow>
   'gr \<Rightarrow> 'sq \<Rightarrow> 'plat \<Rightarrow> ('c, 'g) OpBase list \<Rightarrow> ('c, 'g) BoundOp list \<times> 'plat" where
  "candidates_frontier variations is_synced make_syncs g completed plat [] = ([], plat)"
| "candidates_frontier variations is_synced make_syncs g completed plat (candidate # rest) =
     (let (bounds, plat1) = variations plat candidate;
          (frontier, plat2) = candidates_frontier variations is_synced make_syncs g completed plat1 rest
      in (variation_frontier is_synced make_syncs g completed bounds @ frontier, plat2))"

definition get_frontier ::
  "('plat \<Rightarrow> ('c, 'g) OpBase \<Rightarrow> ('c, 'g) BoundOp list \<times> 'plat) \<Rightarrow>
   (('c, 'g) BoundOp \<Rightarrow> ('c, 'g) OpBase Graph \<Rightarrow> ('c, 'g) BoundOp list \<Rightarrow> bool) \<Rightarrow>
   (('c, 'g) BoundOp \<Rightarrow> ('c, 'g) OpBase Graph \<Rightarrow> ('c, 'g) BoundOp list \<Rightarrow> ('c, 'g) BoundOp list) \<Rightarrow>
   (('c, 'g) BoundOp list \<Rightarrow> ('c, 'g) OpBase \<Rightarrow> bool) \<Rightarrow>
   ('c \<Rightarrow> 'c \<Rightarrow> bool) \<Rightarrow> ('g \<Rightarrow> 'g \<Rightarrow> bool) \<Rightarrow>
   'plat \<Rightarrow> ('c, 'g) OpBase Graph \<Rightarrow> ('c, 'g) BoundOp list \<Rightarrow> error + ('c, 'g) BoundOp list \<times> 'plat" where
  "get_frontier variations is_synced make_syncs contains_unbound cpu_eq gpu_eq plat g completed =
     (case select_candidates g contains_unbound completed (one_pred_completed g completed) of
        Inl e \<Rightarrow> Inl e
      | Inr candidates \<Rightarrow>
          let (frontier, plat') = candidates_frontier variations is_synced make_syncs g completed plat candidates
          in Inr (keep_uniques (BoundOp_eq cpu_eq gpu_eq) frontier, plat'))"

section \<open>Well-formed graphs and legal paths\<close>

text \<open>
  The successors and predecessors of a vertex, the vertices (the keys of \<^verbatim>\<open>succs_\<close>) and the
  edge relation. \<open>graph_ok\<close> collects what the proofs need of a graph: both maps have the
  same keys and every successor is a key (so \<^verbatim>\<open>at\<close> never raises), \<^verbatim>\<open>preds_\<close> is the
  reverse of \<^verbatim>\<open>succs_\<close>, the graph is acyclic, and the start vertex is the one vertex
  without predecessors.
\<close>

definition verts :: "'op Graph \<Rightarrow> 'op set" where
  "verts g = fst ` set (succs g)"

definition succs_of :: "'op Graph \<Rightarrow> 'op \<Rightarrow> 'op list" where
  "succs_of g u = (case map_of (succs g) u of None \<Rightarrow> [] | Some ss \<Rightarrow> ss)"

definition preds_of :: "'op Graph \<Rightarrow> 'op \<Rightarrow> 'op list" where
  "preds_of g v = (case map_of (preds g) v of None \<Rightarrow> [] | Some ps \<Rightarrow> ps)"

definition edges :: "'op Graph \<Rightarrow> ('op \<times> 'op) set" where
  "edges g = {(u, v). v \<in> set (succs_of g u)}"

definition graph_ok :: "'op Graph \<Rightarrow> bool" where
  "graph_ok g \<longleftrightarrow>
     fst ` set (preds g) = verts g
   \<and> succ_ops g \<subseteq> verts g
   \<and> (\<forall>u v. v \<in> set (succs_of g u) \<longleftrightarrow> u \<in> set (preds_of g v))
   \<and> acyclic (edges g)
   \<and> start g \<in> verts g
   \<and> (\<forall>v \<in> verts g. preds_of g v = [] \<longleftrightarrow> v = start g)"

text \<open>
  A path is legal when it starts at the start vertex, repeats no vertex and holds every
  vertex after all of its predecessors.
\<close>

definition topo_prefix :: "'op Graph \<Rightarrow> 'op list \<Rightarrow> bool" where
  "topo_prefix g path \<longleftrightarrow>
     distinct path \<and> set path \<subseteq> verts g
   \<and> (\<forall>i < length path. set (preds_of g (path ! i)) \<subseteq> set (take i path))"

definition path_ok :: "'op Graph \<Rightarrow> 'op list \<Rightarrow> bool" where
  "path_ok g path \<longleftrightarrow> path \<noteq> [] \<and> hd path = start g \<and> topo_prefix g path"

text \<open>An operation is ready when it is not on the path and all its predecessors are.\<close>

definition ready :: "'op Graph \<Rightarrow> 'op list \<Rightarrow> 'op \<Rightarrow> bool" where
  "ready g path s \<longleftrightarrow> s \<notin> set path \<and> set (preds_of g s) \<subseteq> set path"

definition sim_inv :: "'op Graph \<Rightarrow> 'op list \<Rightarrow> 'op list \<Rightarrow> bool" where
  "sim_inv g path frontier \<longleftrightarrow>
     topo_prefix g path \<and> start g \<in> set path \<and> distinct frontier \<and> set frontier \<subseteq> verts g
   \<and> (\<forall>f \<in> set frontier. ready g path f)
   \<and> (\<forall>v \<in> verts g. ready g path v \<and> preds_of g v \<noteq> [] \<longrightarrow> v \<in> set frontier)"

text \<open>
  The operations \<^verbatim>\<open>expand\<close> makes children of: successors of an op on the path that are
  not on the path themselves and have every predecessor on it.
\<close>

definition path_candidates :: "'op Graph \<Rightarrow> 'op list \<Rightarrow> 'op set" where
  "path_candidates g path =
     {s. (\<exists>op \<in> set path. s \<in> set (succs_of g op)) \<and> s \<notin> set path \<and> set (preds_of g s) \<subseteq> set path}"

definition visited_update ::
  "('ctx, 'br, 'op, 't) strategy_backprop \<Rightarrow> 'br \<Rightarrow> ('op, 't) Node \<Rightarrow> ('op, 't) Node \<Rightarrow> bool" where
  "visited_update sb br a a' \<longleftrightarrow>
     n_of a' = n_of a + 1
   \<and> fullyVisited a' =
       (fullyVisited a \<or> (children a' = [] \<and> expanded a') \<or> (children a' \<noteq> [] \<and> list_all fullyVisited (children a')))
   \<and> (\<exists>ctx. state a' = snd (sb ctx (Node (op_of a) (children a') (expanded a) (fullyVisited a') (n_of a + 1) (state a)) br))
   \<and> op_of a' = op_of a \<and> expanded a' = expanded a \<and> length (children a') = length (children a)"

text \<open>No node of the tree has a recorded playout time.\<close>

fun no_playouts :: "('op, 't) PlainNode \<Rightarrow> bool" where
  "no_playouts (PlainNode op cs ts ex) = (ts = [] \<and> list_all no_playouts cs)"

section \<open>Example inputs\<close>

definition kernel_name :: "string \<Rightarrow> string" where
  "kernel_name k = k"

definition rand_zero :: "nat \<Rightarrow> nat" where
  "rand_zero k = 0"

definition two_source :: "nat Graph" where
  "two_source = \<lparr>start = 0, succs = [(0, [1]), (2, [1]), (1, [])],
                  preds = [(0, []), (2, []), (1, [0, 2])]\<rparr>"

definition diamond :: "nat Graph" where
  "diamond = \<lparr>start = 0, succs = [(0, [1, 2]), (1, [3]), (2, [3]), (3, [])],
               preds = [(0, []), (1, [0]), (2, [0]), (3, [1, 2])]\<rparr>"

definition chain :: "nat Graph" where
  "chain = \<lparr>start = 0, succs = [(0, [1]), (1, [])], preds = [(0, []), (1, [0])]\<rparr>"

definition fork :: "nat Graph" where
  "fork = \<lparr>start = 0, succs = [(0, [1, 2]), (1, []), (2, [])],
            preds = [(0, []), (1, [0]), (2, [0])]\<rparr>"

definition record_time :: "(unit, nat, nat, nat) strategy_backprop" where
  "record_time ctx nd br = (ctx, \<lparr>times = times (state nd) @ [br]\<rparr>)"

definition rand_zeros :: "nat \<Rightarrow> nat \<Rightarrow> nat" where
  "rand_zeros i = rand_zero"

definition flat_uct :: "unit \<Rightarrow> (nat, nat) PlainNode \<Rightarrow> (nat, nat) PlainNode \<Rightarrow> nat" where
  "flat_uct ctx nd child = 0"

definition nat_gt :: "nat \<Rightarrow> nat \<Rightarrow> bool" where
  "nat_gt a b = (b < a)"

definition vertex_name :: "nat \<Rightarrow> string" where
  "vertex_name v = replicate v (CHR ''a'')"

definition example_graph :: "(string, string) OpBase Graph" where
  "example_graph =
     \<lparr>start = Bound_op (Cpu_op ''a''),
      succs = [(Bound_op (Cpu_op ''a''), [Gpu_op ''k'']), (Gpu_op ''k'', [])],
      preds = [(Bound_op (Cpu_op ''a''), []), (Gpu_op ''k'', [Bound_op (Cpu_op ''a'')])]\<rparr>"

fun two_streams :: "unit \<Rightarrow> (string, string) OpBase \<Rightarrow> (string, string) BoundOp list \<times> unit" where
  "two_streams plat (Gpu_op k) =
     ([BoundGpu_op (BoundGpuOp k (Stream 0)), BoundGpu_op (BoundGpuOp k (Stream 1))], plat)"
| "two_streams plat (Bound_op b) = ([b], plat)"

fun synced_on_default ::
  "(string, string) BoundOp \<Rightarrow> (string, string) OpBase Graph \<Rightarrow> (string, string) BoundOp list \<Rightarrow> bool" where
  "synced_on_default (BoundGpu_op b) g completed = (bgo_stream b = Stream 0)"
| "synced_on_default b g completed = True"

definition sync_default_stream ::
  "(string, string) BoundOp \<Rightarrow> (string, string) OpBase Graph \<Rightarrow> (string, string) BoundOp list \<Rightarrow>
   (string, string) BoundOp list" where
  "sync_default_stream b g completed = [StreamSync_op (new_StreamSync (Stream 0))]"

definition in_sequence :: "(string, string) BoundOp list \<Rightarrow> (string, string) OpBase \<Rightarrow> bool" where
  "in_sequence completed op = list_ex (\<lambda>e. Bound_op e = op \<or> unbound e = Some op) completed"

definition string_eq :: "string \<Rightarrow> string \<Rightarrow> bool" where
  "string_eq a b = (a = b)"

section \<open>Lemmas about the broadcast\<close>

lemma split_names_concat: "split_names (concat ns @ rest) (map length ns) = ns"
  by (induction ns) auto

lemma split_names_concat': "split_names (concat (map f xs)) (map (\<lambda>x. length (f x)) xs) = map f xs"
  using split_names_concat[of "map f xs" "[]"] by (simp add: comp_def)

lemma length_concat_names: "length (concat (map name xs)) = sum_list (map (\<lambda>op. length (name op)) xs)"
  by (induction xs) auto

lemma mpi_bcast_recv:
  assumes "rank \<noteq> 0"
  shows "mpi_bcast name rank root_order order =
     (if length order = length root_order
      then (case find_positions name order (map name root_order) of
              Inl e \<Rightarrow> Inl e | Inr pos \<Rightarrow> Inr (map (\<lambda>oi. order ! oi) pos))
      else Inl BcastCountMismatch)"
  using assms
  by (simp add: mpi_bcast_def MPI_Bcast_def Let_def split_names_concat' length_concat_names)

lemma find_op_Some: "find_op name xs n = Some oi \<Longrightarrow> oi < length xs \<and> name (xs ! oi) = n \<and> (\<forall>k<oi. name (xs ! k) \<noteq> n)"
proof (induction xs arbitrary: oi)
  case Nil then show ?case by simp
next
  case (Cons x xs)
  show ?case
  proof (cases "name x = n")
    case True with Cons.prems show ?thesis by simp
  next
    case False
    with Cons.prems obtain oj where oj: "find_op name xs n = Some oj" "oi = Suc oj" by auto
    from Cons.IH[OF oj(1)] False oj(2) show ?thesis
      by (auto simp: less_Suc_eq_0_disj)
  qed
qed

lemma find_op_None: "find_op name xs n = None \<longleftrightarrow> n \<notin> name ` set xs"
  by (induction xs) auto

lemma find_positions_Inr:
  "find_positions name order ns = Inr pos \<Longrightarrow>
     length pos = length ns \<and> (\<forall>i<length ns. find_op name order (ns ! i) = Some (pos ! i))"
proof (induction ns arbitrary: pos)
  case Nil then show ?case by simp
next
  case (Cons n ns)
  then show ?case
    by (auto split: option.splits sum.splits simp: less_Suc_eq_0_disj)
qed

lemma find_positions_Inl:
  "find_positions name order ns = Inl e \<Longrightarrow> \<exists>n \<in> set ns. e = NameNotFound n \<and> n \<notin> name ` set order"
proof (induction ns)
  case Nil then show ?case by simp
next
  case (Cons n ns)
  then show ?case
    by (auto split: option.splits sum.splits simp: find_op_None)
qed

lemma find_positions_fails:
  assumes "n \<in> set ns" and "n \<notin> name ` set order"
  shows "\<exists>e. find_positions name order ns = Inl e"
proof (cases "find_positions name order ns")
  case (Inl e)
  then show ?thesis by blast
next
  case (Inr pos)
  from assms(1) obtain i where i: "i < length ns" "ns ! i = n"
    by (auto simp: in_set_conv_nth)
  with find_positions_Inr[OF Inr] have "find_op name order n = Some (pos ! i)" by auto
  with assms(2) show ?thesis by (simp add: find_op_None[symmetric])
qed

lemma find_op_distinct:
  "distinct (map name xs) \<Longrightarrow> x \<in> set xs \<Longrightarrow> \<exists>oi. find_op name xs (name x) = Some oi \<and> xs ! oi = x"
proof (induction xs)
  case Nil then show ?case by simp
next
  case (Cons y ys)
  then show ?case by (cases "x = y") auto
qed

lemma find_positions_distinct:
  "distinct (map name order) \<Longrightarrow> set xs \<subseteq> set order \<Longrightarrow>
     \<exists>pos. find_positions name order (map name xs) = Inr pos \<and> map (\<lambda>oi. order ! oi) pos = xs"
proof (induction xs)
  case Nil then show ?case by simp
next
  case (Cons x xs)
  then obtain pos where "find_positions name order (map name xs) = Inr pos" "map (\<lambda>oi. order ! oi) pos = xs"
    by auto
  moreover from Cons.prems obtain oi where "find_op name order (name x) = Some oi" "order ! oi = x"
    using find_op_distinct[of name order x] by auto
  ultimately show ?case by simp
qed

section \<open>Lemmas about graphs\<close>

lemma map_at_succs_ok: "v \<in> verts g \<Longrightarrow> map_at (succs g) v = Inr (succs_of g v)"
  by (auto simp: verts_def map_at_def succs_of_def map_of_eq_None_iff split: option.splits)

lemma map_at_preds_ok: "graph_ok g \<Longrightarrow> v \<in> verts g \<Longrightarrow> map_at (preds g) v = Inr (preds_of g v)"
  by (auto simp: graph_ok_def map_at_def preds_of_def map_of_eq_None_iff split: option.splits)

lemma succs_of_mem:
  assumes "v \<in> set (succs_of g u)"
  shows "u \<in> verts g" and "v \<in> succ_ops g"
proof -
  from assms obtain ss where "map_of (succs g) u = Some ss" and v: "v \<in> set ss"
    by (cases "map_of (succs g) u") (auto simp: succs_of_def)
  then have mem: "(u, ss) \<in> set (succs g)" by (auto dest: map_of_SomeD)
  from mem show "u \<in> verts g" by (force simp: verts_def)
  from mem v show "v \<in> succ_ops g" by (auto simp: succ_ops_def)
qed

lemma succs_of_verts: "graph_ok g \<Longrightarrow> v \<in> set (succs_of g u) \<Longrightarrow> v \<in> verts g"
  using succs_of_mem(2)[of v g u] by (auto simp: graph_ok_def)

lemma edge_sym: "graph_ok g \<Longrightarrow> v \<in> set (succs_of g u) \<longleftrightarrow> u \<in> set (preds_of g v)"
  by (simp add: graph_ok_def)

lemma preds_of_verts:
  assumes "graph_ok g" and "u \<in> set (preds_of g v)"
  shows "u \<in> verts g"
  using assms succs_of_mem(1)[of v g u] by (simp add: edge_sym)

lemma finite_edges: "finite (edges g)"
proof -
  have "edges g \<subseteq> verts g \<times> succ_ops g"
    using succs_of_mem by (fastforce simp: edges_def)
  moreover have "finite (verts g \<times> succ_ops g)"
    by (simp add: verts_def finite_succ_ops)
  ultimately show ?thesis by (rule finite_subset)
qed

lemma wf_edges: "graph_ok g \<Longrightarrow> wf (edges g)"
  by (simp add: graph_ok_def finite_acyclic_wf finite_edges)

lemma preds_induct:
  assumes ok: "graph_ok g"
    and step: "\<And>v. (\<And>u. u \<in> set (preds_of g v) \<Longrightarrow> P u) \<Longrightarrow> P v"
  shows "P v"
proof (induction v rule: wf_induct_rule[OF wf_edges[OF ok]])
  case (1 v)
  show ?case
  proof (rule step)
    fix u assume "u \<in> set (preds_of g v)"
    then have "(u, v) \<in> edges g" using ok by (simp add: edges_def edge_sym)
    then show "P u" by (rule 1)
  qed
qed

lemma reachable_verts:
  assumes ok: "graph_ok g"
  shows "{v. (start g, v) \<in> (edges g)\<^sup>*} = verts g"
proof
  show "{v. (start g, v) \<in> (edges g)\<^sup>*} \<subseteq> verts g"
  proof
    fix v assume "v \<in> {v. (start g, v) \<in> (edges g)\<^sup>*}"
    then have "(start g, v) \<in> (edges g)\<^sup>*" by simp
    then show "v \<in> verts g"
    proof (induction rule: rtrancl_induct)
      case base
      show ?case using ok by (simp add: graph_ok_def)
    next
      case (step y z)
      then show ?case using succs_of_verts[OF ok, of z y] by (simp add: edges_def)
    qed
  qed
next
  have "v \<in> verts g \<longrightarrow> (start g, v) \<in> (edges g)\<^sup>*" for v
  proof (induction v rule: preds_induct[OF ok])
    case (1 v)
    show ?case
    proof
      assume v: "v \<in> verts g"
      show "(start g, v) \<in> (edges g)\<^sup>*"
      proof (cases "preds_of g v = []")
        case True
        with ok v have "v = start g" by (simp add: graph_ok_def)
        then show ?thesis by simp
      next
        case False
        then obtain u where u: "u \<in> set (preds_of g v)" by (cases "preds_of g v") auto
        then have "u \<in> verts g" by (rule preds_of_verts[OF ok])
        with 1[OF u] have "(start g, u) \<in> (edges g)\<^sup>*" by simp
        moreover have "(u, v) \<in> edges g" using u ok by (simp add: edges_def edge_sym)
        ultimately show ?thesis by (rule rtrancl_into_rtrancl)
      qed
    qed
  qed
  then show "verts g \<subseteq> {v. (start g, v) \<in> (edges g)\<^sup>*}" by auto
qed

lemma map_at_preds_of: "map_at (preds g) f = Inr ps \<Longrightarrow> preds_of g f = ps"
  by (auto simp: map_at_def preds_of_def split: option.splits)

lemma map_at_succs_of: "map_at (succs g) f = Inr ss \<Longrightarrow> succs_of g f = ss"
  by (auto simp: map_at_def succs_of_def split: option.splits)

section \<open>Lemmas about the playout loop\<close>

lemma try_push_ok:
  assumes "graph_ok g" and "s \<in> verts g"
  shows "try_push g path frontier s =
           Inr (if s \<notin> set frontier \<and> ready g path s then frontier @ [s] else frontier)"
  using assms
  by (auto simp: try_push_def map_at_preds_ok list_all_iff ready_def)

lemma push_succs_ok:
  assumes ok: "graph_ok g"
  shows "set ss \<subseteq> verts g \<Longrightarrow>
     \<exists>frontier'. push_succs g path frontier ss = Inr frontier'
        \<and> set frontier' = set frontier \<union> {s \<in> set ss. ready g path s}
        \<and> (distinct frontier \<longrightarrow> distinct frontier')"
proof (induction ss arbitrary: frontier)
  case Nil
  then show ?case by simp
next
  case (Cons s ss)
  let ?f1 = "if s \<notin> set frontier \<and> ready g path s then frontier @ [s] else frontier"
  from Cons.prems have s: "s \<in> verts g" and ss: "set ss \<subseteq> verts g" by auto
  from Cons.IH[OF ss, of ?f1] obtain f2 where f2: "push_succs g path ?f1 ss = Inr f2"
    "set f2 = set ?f1 \<union> {s \<in> set ss. ready g path s}" "distinct ?f1 \<longrightarrow> distinct f2"
    by blast
  have "push_succs g path frontier (s # ss) = Inr f2"
    using f2(1) try_push_ok[OF ok s] by simp
  moreover have "set f2 = set frontier \<union> {x \<in> set (s # ss). ready g path x}"
    using f2(2) by auto
  moreover have "distinct frontier \<longrightarrow> distinct f2"
    using f2(3) by auto
  ultimately show ?case by blast
qed

lemma init_frontier_ok:
  assumes ok: "graph_ok g"
  shows "set ops \<subseteq> verts g \<Longrightarrow>
     \<exists>frontier'. init_frontier g path frontier ops = Inr frontier'
        \<and> set frontier' = set frontier \<union> {s. \<exists>op \<in> set ops. s \<in> set (succs_of g op) \<and> ready g path s}
        \<and> (distinct frontier \<longrightarrow> distinct frontier')"
proof (induction ops arbitrary: frontier)
  case Nil
  then show ?case by simp
next
  case (Cons op ops)
  from Cons.prems have op: "op \<in> verts g" and ops: "set ops \<subseteq> verts g" by auto
  have "set (succs_of g op) \<subseteq> verts g" using succs_of_verts[OF ok] by blast
  from push_succs_ok[OF ok this, of path frontier] obtain f1 where
    f1: "push_succs g path frontier (succs_of g op) = Inr f1"
    "set f1 = set frontier \<union> {s \<in> set (succs_of g op). ready g path s}"
    "distinct frontier \<longrightarrow> distinct f1" by blast
  from Cons.IH[OF ops, of f1] obtain f2 where f2: "init_frontier g path f1 ops = Inr f2"
    "set f2 = set f1 \<union> {s. \<exists>op \<in> set ops. s \<in> set (succs_of g op) \<and> ready g path s}"
    "distinct f1 \<longrightarrow> distinct f2" by blast
  have "init_frontier g path frontier (op # ops) = Inr f2"
    using f1(1) f2(1) map_at_succs_ok[OF op] by simp
  moreover have "set f2 = set frontier \<union> {s. \<exists>x \<in> set (op # ops). s \<in> set (succs_of g x) \<and> ready g path s}"
    using f1(2) f2(2) by auto
  moreover have "distinct frontier \<longrightarrow> distinct f2" using f1(3) f2(3) by simp
  ultimately show ?case by blast
qed

lemma sim_inv_init:
  assumes ok: "graph_ok g" and p: "path_ok g path"
  shows "\<exists>frontier. init_frontier g path [] path = Inr frontier \<and> sim_inv g path frontier"
proof -
  from p have sub: "set path \<subseteq> verts g" and tp: "topo_prefix g path"
    by (auto simp: path_ok_def topo_prefix_def)
  from p have st: "start g \<in> set path"
    using hd_in_set[of path] by (auto simp: path_ok_def)
  from init_frontier_ok[OF ok sub, of path "[]"] obtain f where
    f: "init_frontier g path [] path = Inr f"
    "set f = {s. \<exists>op \<in> set path. s \<in> set (succs_of g op) \<and> ready g path s}"
    "distinct f" by auto
  have "set f \<subseteq> verts g" using f(2) succs_of_verts[OF ok] by auto
  moreover have "\<forall>x \<in> set f. ready g path x" using f(2) by auto
  moreover have "\<forall>v \<in> verts g. ready g path v \<and> preds_of g v \<noteq> [] \<longrightarrow> v \<in> set f"
  proof (intro ballI impI)
    fix v assume "v \<in> verts g" and r: "ready g path v \<and> preds_of g v \<noteq> []"
    then obtain u where u: "u \<in> set (preds_of g v)" by (cases "preds_of g v") auto
    with r have "u \<in> set path" by (auto simp: ready_def)
    moreover have "v \<in> set (succs_of g u)" using u ok by (simp add: edge_sym)
    ultimately show "v \<in> set f" using f(2) r by auto
  qed
  ultimately have "sim_inv g path f" using tp st f(3) by (simp add: sim_inv_def)
  with f(1) show ?thesis by blast
qed

lemma set_erase_distinct:
  assumes "distinct xs" and "i < length xs"
  shows "set (erase i xs) = set xs - {xs ! i}"
proof -
  have eq: "xs = take i xs @ xs ! i # drop (Suc i) xs"
    using assms(2) by (simp only: id_take_nth_drop[symmetric])
  with assms(1) have "distinct (take i xs @ xs ! i # drop (Suc i) xs)" by simp
  then have "xs ! i \<notin> set (take i xs) \<union> set (drop (Suc i) xs)" by auto
  moreover have "set xs = set (take i xs) \<union> {xs ! i} \<union> set (drop (Suc i) xs)"
    using arg_cong[OF eq, of set] by simp
  ultimately show ?thesis by (auto simp: erase_def)
qed

lemma distinct_erase: "distinct xs \<Longrightarrow> distinct (erase i xs)"
proof -
  assume d: "distinct xs"
  have "set (take i xs) \<inter> set (drop (Suc i) xs) = {}"
    using d set_take_disj_set_drop_if_distinct[of xs i "Suc i"] by simp
  with d show ?thesis by (simp add: erase_def)
qed

lemma sim_inv_step:
  assumes ok: "graph_ok g" and inv: "sim_inv g path frontier" and ii: "ii < length frontier"
  shows "\<exists>frontier'. push_succs g (path @ [frontier ! ii]) frontier (succs_of g (frontier ! ii)) = Inr frontier'
           \<and> sim_inv g (path @ [frontier ! ii]) (erase ii frontier')"
proof -
  let ?op = "frontier ! ii"
  let ?path = "path @ [?op]"
  from inv have tp: "topo_prefix g path" and st: "start g \<in> set path"
    and df: "distinct frontier" and fv: "set frontier \<subseteq> verts g"
    and fr: "\<forall>f \<in> set frontier. ready g path f"
    and cp: "\<forall>v \<in> verts g. ready g path v \<and> preds_of g v \<noteq> [] \<longrightarrow> v \<in> set frontier"
    by (simp_all add: sim_inv_def)
  have opF: "?op \<in> set frontier" using ii by simp
  then have opV: "?op \<in> verts g" and opR: "ready g path ?op" using fv fr by auto
  have "set (succs_of g ?op) \<subseteq> verts g" using succs_of_verts[OF ok] by blast
  from push_succs_ok[OF ok this, of ?path frontier] df obtain f' where
    f': "push_succs g ?path frontier (succs_of g ?op) = Inr f'"
    "set f' = set frontier \<union> {s \<in> set (succs_of g ?op). ready g ?path s}"
    "distinct f'" by blast
  have len: "length frontier \<le> length f'"
    using push_succs_shape[OF f'(1)] by auto
  have nth: "f' ! ii = ?op"
    using push_succs_shape[OF f'(1)] ii by (auto simp: nth_append)
  have ii': "ii < length f'" using ii len by simp
  have setE: "set (erase ii f') = set f' - {?op}"
    using set_erase_distinct[OF f'(3) ii'] nth by simp
  have tp': "topo_prefix g ?path"
  proof -
    have "distinct ?path" using tp opR by (auto simp: topo_prefix_def ready_def)
    moreover have "set ?path \<subseteq> verts g" using tp opV by (auto simp: topo_prefix_def)
    moreover have "set (preds_of g (?path ! i)) \<subseteq> set (take i ?path)" if "i < length ?path" for i
    proof (cases "i < length path")
      case True
      with tp show ?thesis by (auto simp: topo_prefix_def nth_append)
    next
      case False
      with that have "i = length path" by simp
      with opR show ?thesis by (auto simp: ready_def)
    qed
    ultimately show ?thesis by (simp add: topo_prefix_def)
  qed
  have mono: "ready g ?path v" if "ready g path v" "v \<noteq> ?op" for v
    using that by (auto simp: ready_def)
  have r1: "\<forall>f \<in> set (erase ii f'). ready g ?path f"
    using setE f'(2) fr mono by auto
  have r2: "\<forall>v \<in> verts g. ready g ?path v \<and> preds_of g v \<noteq> [] \<longrightarrow> v \<in> set (erase ii f')"
  proof (intro ballI impI)
    fix v assume v: "v \<in> verts g" and r: "ready g ?path v \<and> preds_of g v \<noteq> []"
    then have ne: "v \<noteq> ?op" by (auto simp: ready_def)
    show "v \<in> set (erase ii f')"
    proof (cases "?op \<in> set (preds_of g v)")
      case True
      then have "v \<in> set (succs_of g ?op)" using ok by (simp add: edge_sym)
      with r ne show ?thesis using setE f'(2) by auto
    next
      case False
      with r have "ready g path v" by (auto simp: ready_def)
      with cp v r have "v \<in> set frontier" by auto
      with ne show ?thesis using setE f'(2) by auto
    qed
  qed
  have "set (erase ii f') \<subseteq> verts g"
    using setE f'(2) fv succs_of_verts[OF ok] by auto
  moreover have "distinct (erase ii f')" using f'(3) by (rule distinct_erase)
  moreover have "start g \<in> set ?path" using st by simp
  ultimately have "sim_inv g ?path (erase ii f')"
    using tp' r1 r2 unfolding sim_inv_def by blast
  with f'(1) show ?thesis by blast
qed

lemma sim_inv_final:
  assumes ok: "graph_ok g" and inv: "sim_inv g path []"
  shows "set path = verts g"
proof
  show "set path \<subseteq> verts g" using inv by (simp add: sim_inv_def topo_prefix_def)
next
  have "v \<in> verts g \<longrightarrow> v \<in> set path" for v
  proof (induction v rule: preds_induct[OF ok])
    case (1 v)
    show ?case
    proof
      assume v: "v \<in> verts g"
      show "v \<in> set path"
      proof (cases "preds_of g v = []")
        case True
        with ok v have "v = start g" by (simp add: graph_ok_def)
        with inv show ?thesis by (simp add: sim_inv_def)
      next
        case False
        have "set (preds_of g v) \<subseteq> set path"
          using 1 preds_of_verts[OF ok] by blast
        with False inv v show ?thesis by (auto simp: sim_inv_def ready_def)
      qed
    qed
  qed
  then show "verts g \<subseteq> set path" by auto
qed

lemma sim_loop_ok:
  "graph_ok g \<Longrightarrow> sim_inv g path frontier \<Longrightarrow>
    \<exists>order. sim_loop g rnd k path frontier = Inr order
       \<and> topo_prefix g order \<and> set order = verts g \<and> take (length path) order = path"
proof (induction g rnd k path frontier rule: sim_loop.induct)
  case (1 g rnd k path frontier)
  note ok = "1.prems"(1) and inv = "1.prems"(2)
  show ?case
  proof (cases "frontier = []")
    case True
    with inv sim_inv_final[OF ok] have "set path = verts g" by simp
    moreover have "topo_prefix g path" using inv by (simp add: sim_inv_def)
    moreover have "sim_loop g rnd k path frontier = Inr path"
      using True by (simp add: sim_loop.simps)
    ultimately show ?thesis by simp
  next
    case False
    let ?ii = "rnd k mod length frontier"
    let ?op = "frontier ! ?ii"
    have ii: "?ii < length frontier" using False by simp
    then have "?op \<in> verts g" using inv by (auto simp: sim_inv_def)
    then have ss: "map_at (succs g) ?op = Inr (succs_of g ?op)" by (rule map_at_succs_ok)
    from sim_inv_step[OF ok inv ii] obtain f' where
      f': "push_succs g (path @ [?op]) frontier (succs_of g ?op) = Inr f'"
      and inv': "sim_inv g (path @ [?op]) (erase ?ii f')" by blast
    from "1.IH"[OF False refl refl refl ss f' ok inv'] obtain order where
      order: "sim_loop g rnd (Suc k) (path @ [?op]) (erase ?ii f') = Inr order"
      "topo_prefix g order" "set order = verts g"
      "take (length (path @ [?op])) order = path @ [?op]" by blast
    have "sim_loop g rnd k path frontier = Inr order"
      using False ss f' order(1) by (simp add: sim_loop.simps[of g rnd k path frontier] Let_def)
    moreover have "take (length path) order = path"
      using order(4) by (metis append_eq_conv_conj length_append_singleton take_Suc_conv_app_nth
          butlast_snoc butlast_take diff_Suc_1 le_add2 length_take min.absorb2 nat_le_linear take_all)
    ultimately show ?thesis using order(2,3) by blast
  qed
qed

lemma sim_loop_cpp_eq: "sim_loop_cpp g rnd k path frontier = sim_loop g rnd k path frontier"
proof (induction g rnd k path frontier rule: sim_loop.induct)
  case (1 g rnd k path frontier)
  show ?case
  proof (cases "frontier = []")
    case True
    then show ?thesis
      by (simp add: sim_loop.simps[of g rnd k path "[]"] sim_loop_cpp.simps[of g rnd k path "[]"])
  next
    case False
    let ?ii = "rnd k mod length frontier"
    let ?op = "frontier ! ?ii"
    have ii: "?ii < length frontier" using False by simp
    have mem: "?op \<in> set (path @ [?op])" by simp
    show ?thesis
    proof (cases "map_at (succs g) ?op")
      case (Inl e)
      with False show ?thesis
        by (simp add: sim_loop.simps[of g rnd k path frontier] sim_loop_cpp.simps[of g rnd k path frontier] Let_def)
    next
      case (Inr ss)
      note pe = push_succs_erase[OF ii mem, of g ss]
      show ?thesis
      proof (cases "push_succs g (path @ [?op]) frontier ss")
        case (Inl e)
        with False Inr pe show ?thesis
          by (simp add: sim_loop.simps[of g rnd k path frontier] sim_loop_cpp.simps[of g rnd k path frontier] Let_def)
      next
        case (Inr f1)
        from "1.IH"[OF False refl refl refl \<open>map_at (succs g) ?op = Inr ss\<close> Inr]
        have "sim_loop_cpp g rnd (Suc k) (path @ [?op]) (erase ?ii f1)
              = sim_loop g rnd (Suc k) (path @ [?op]) (erase ?ii f1)" .
        with False \<open>map_at (succs g) ?op = Inr ss\<close> Inr pe show ?thesis
          by (simp add: sim_loop.simps[of g rnd k path frontier] sim_loop_cpp.simps[of g rnd k path frontier] Let_def)
      qed
    qed
  qed
qed

lemma get_simulation_order_cpp_eq:
  "get_simulation_order_cpp g rnd to_root = get_simulation_order g rnd to_root"
  by (simp add: get_simulation_order_cpp_def get_simulation_order_def sim_loop_cpp_eq
      cong: sum.case_cong)

text \<open>
  Every node that \<^verbatim>\<open>expand\<close> creates under a root \<^verbatim>\<open>Node(g.start_)\<close> has a legal path: the
  root's path is legal, and a legal path stays legal when a candidate is appended.
\<close>

lemma path_ok_root: "graph_ok g \<Longrightarrow> path_ok g (rev [start g])"
  by (simp add: path_ok_def topo_prefix_def graph_ok_def)

lemma path_ok_child:
  assumes ok: "graph_ok g" and p: "path_ok g (rev path)" and c: "c \<in> path_candidates g path"
  shows "path_ok g (rev (c # path))"
proof -
  let ?P = "rev path"
  from p have ne: "?P \<noteq> []" and hd: "hd ?P = start g" and d: "distinct ?P"
    and sub: "set ?P \<subseteq> verts g"
    and tp: "\<forall>i<length ?P. set (preds_of g (?P ! i)) \<subseteq> set (take i ?P)"
    by (simp_all add: path_ok_def topo_prefix_def)
  from c obtain op where "c \<in> set (succs_of g op)" and cn: "c \<notin> set path"
    and cp: "set (preds_of g c) \<subseteq> set path"
    by (auto simp: path_candidates_def)
  then have cv: "c \<in> verts g" using succs_of_verts[OF ok] by blast
  have "set (preds_of g ((?P @ [c]) ! i)) \<subseteq> set (take i (?P @ [c]))" if "i < length (?P @ [c])" for i
  proof (cases "i < length ?P")
    case True
    with tp show ?thesis by (simp add: nth_append)
  next
    case False
    with that have i: "i = length ?P" by simp
    have "(?P @ [c]) ! length ?P = c" by (rule nth_append_length)
    with cp show ?thesis unfolding i by simp
  qed
  then have "topo_prefix g (?P @ [c])"
    using d cn sub cv by (simp add: topo_prefix_def)
  moreover have "hd (?P @ [c]) = start g" using ne hd by simp
  ultimately show ?thesis by (simp add: path_ok_def)
qed

lemma graph_ok_diamond: "graph_ok diamond"
proof -
  have a: "fst ` set (preds diamond) = verts diamond"
    by (simp add: diamond_def verts_def)
  have b: "succ_ops diamond \<subseteq> verts diamond"
    by (simp add: diamond_def verts_def succ_ops_def)
  have c: "v \<in> set (succs_of diamond u) \<longleftrightarrow> u \<in> set (preds_of diamond v)" for u v
    by (simp add: diamond_def succs_of_def preds_of_def)
  have d: "acyclic (edges diamond)"
  proof (rule acyclicI_order[where f = "\<lambda>v. (3::nat) - v"])
    fix a b assume "(a, b) \<in> edges diamond"
    then have "a < b \<and> b \<le> 3"
      by (auto simp: edges_def succs_of_def diamond_def split: if_splits)
    then show "(3::nat) - b < 3 - a" by arith
  qed
  have e: "start diamond \<in> verts diamond"
    by (simp add: diamond_def verts_def)
  have f: "\<forall>v \<in> verts diamond. preds_of diamond v = [] \<longleftrightarrow> v = start diamond"
    by (simp add: diamond_def verts_def preds_of_def)
  from a b c d e f show ?thesis unfolding graph_ok_def by blast
qed

lemma path_ok_diamond: "path_ok diamond (rev [0])"
  by (simp add: path_ok_def topo_prefix_def diamond_def verts_def preds_of_def)

section \<open>Lemmas about backpropagation\<close>

lemma foldl_and: "foldl (\<lambda>a child. a \<and> P child) b cs = (b \<and> list_all P cs)"
  by (induction cs arbitrary: b) auto

lemma backprop_node_spec:
  assumes "backprop_node sb br ctx a = (ctx', a')"
  shows "children a' = children a" and "visited_update sb br a a'"
proof -
  obtain op cs ex fv n st where a: "a = Node op cs ex fv n st" by (cases a)
  let ?fv = "fv \<or> (cs = [] \<and> ex) \<or> (cs \<noteq> [] \<and> list_all fullyVisited cs)"
  have fv: "(if cs = [] then (if ex then ex else fv)
             else (let allChildrenVisited = foldl (\<lambda>a child. a \<and> fullyVisited child) True cs
                   in if allChildrenVisited then True else fv)) = ?fv"
    by (auto simp: foldl_and)
  from assms have a': "a' = Node op cs ex ?fv (n + 1) (snd (sb ctx (Node op cs ex ?fv (n + 1) st) br))"
    unfolding a backprop_node.simps fv by (auto simp: Let_def split: prod.splits)
  show "children a' = children a" using a a' by simp
  show "visited_update sb br a a'"
    unfolding visited_update_def using a a' by auto
qed

lemma visited_update_cong:
  assumes "n_of a = n_of b" "fullyVisited a = fullyVisited b" "op_of a = op_of b"
    "expanded a = expanded b" "state a = state b" "length (children a) = length (children b)"
  shows "visited_update sb br a x = visited_update sb br b x"
  unfolding visited_update_def using assms by simp

lemma node_at_same_children:
  "children t' = children t \<Longrightarrow> q \<noteq> [] \<Longrightarrow> node_at t' q = node_at t q"
  by (cases q) simp_all

lemma backprop_path:
  "node_at t loc \<noteq> None \<Longrightarrow> backprop sb br loc ctx t = (ctx', t') \<Longrightarrow>
     (\<forall>q. prefix q loc \<longrightarrow> (\<exists>a a'. node_at t q = Some a \<and> node_at t' q = Some a' \<and> visited_update sb br a a'))
   \<and> (\<forall>q. \<not> prefix q loc \<longrightarrow> node_at t' q = node_at t q)"
proof (induction loc arbitrary: t ctx ctx' t')
  case Nil
  from backprop_node_spec[of sb br ctx t ctx' t'] Nil.prems(2)
  have "children t' = children t" "visited_update sb br t t'" by simp_all
  then show ?case using node_at_same_children[of t' t] by simp
next
  case (Cons i loc)
  obtain op cs ex fv n st where t: "t = Node op cs ex fv n st" by (cases t)
  from Cons.prems(1) have i: "i < length cs" and sub: "node_at (cs ! i) loc \<noteq> None"
    by (auto simp: t split: if_splits)
  obtain c1 ch' where ch: "backprop sb br loc ctx (cs ! i) = (c1, ch')" by fastforce
  with Cons.prems(2) i have top: "backprop_node sb br c1 (Node op (cs[i := ch']) ex fv n st) = (ctx', t')"
    by (simp add: t)
  note IH = Cons.IH[OF sub ch]
  from backprop_node_spec[OF top]
  have cs': "children t' = cs[i := ch']"
    and vu: "visited_update sb br (Node op (cs[i := ch']) ex fv n st) t'" by simp_all
  have vu': "visited_update sb br t t'"
    using vu visited_update_cong[of t "Node op (cs[i := ch']) ex fv n st" sb br t']
    by (simp add: t)
  have at_i: "node_at t' (i # q) = node_at ch' q" for q
    using cs' i by simp
  have at_t: "node_at t (i # q) = node_at (cs ! i) q" for q
    using i by (simp add: t)
  show ?case
  proof (intro conjI allI impI)
    fix q assume "prefix q (i # loc)"
    then consider "q = []" | q' where "q = i # q'" "prefix q' loc"
      by (cases q) auto
    then show "\<exists>a a'. node_at t q = Some a \<and> node_at t' q = Some a' \<and> visited_update sb br a a'"
    proof cases
      case 1
      with vu' show ?thesis by simp
    next
      case 2
      with IH show ?thesis by (simp only: at_i at_t)
    qed
  next
    fix q assume np: "\<not> prefix q (i # loc)"
    then obtain j q' where q: "q = j # q'" by (cases q) auto
    show "node_at t' q = node_at t q"
    proof (cases "j = i")
      case True
      with np q have "\<not> prefix q' loc" by simp
      with IH have "node_at ch' q' = node_at (cs ! i) q'" by blast
      with True q show ?thesis by (simp only: at_i at_t)
    next
      case False
      then show ?thesis using cs' by (simp add: q t)
    qed
  qed
qed

section \<open>Lemmas about expansion\<close>

lemma erase_all_removeAll: "erase_all x xs = removeAll x xs"
proof (induction x xs rule: erase_all.induct)
  case (1 x xs)
  show ?case
  proof (cases "x \<in> set xs")
    case True
    have "removeAll x (remove1 x xs) = removeAll x xs"
      by (induction xs) auto
    with True 1 show ?thesis by (simp add: erase_all.simps[of x xs])
  next
    case False
    then show ?thesis by (simp add: erase_all.simps[of x xs])
  qed
qed

lemma first_unplayed_Some:
  "first_unplayed cs = Some i \<Longrightarrow>
     i < length cs \<and> times (state (cs ! i)) = [] \<and> (\<forall>j<i. times (state (cs ! j)) \<noteq> [])"
proof (induction cs arbitrary: i)
  case Nil
  then show ?case by simp
next
  case (Cons c cs)
  show ?case
  proof (cases "times (state c) = []")
    case True
    with Cons.prems show ?thesis by simp
  next
    case False
    with Cons.prems obtain k where k: "first_unplayed cs = Some k" "i = Suc k" by auto
    from Cons.IH[OF k(1)] False k(2) show ?thesis
      by (auto simp: less_Suc_eq_0_disj)
  qed
qed

lemma first_unplayed_None:
  "first_unplayed cs = None \<longleftrightarrow> (\<forall>c \<in> set cs. times (state c) \<noteq> [])"
  by (induction cs) auto

lemma expand_result:
  assumes gen: "generate_children g ancestors nd = Inr nd'" and ne: "children nd' \<noteq> []"
  shows "if (\<forall>c \<in> set (children nd'). times (state c) \<noteq> [])
         then expand g ancestors nd = Inl Unreachable
         else (\<exists>i < length (children nd'). expand g ancestors nd = Inr (nd', Some i)
                 \<and> times (state (children nd' ! i)) = []
                 \<and> (\<forall>j<i. times (state (children nd' ! j)) \<noteq> []))"
proof (cases "first_unplayed (children nd')")
  case None
  then have "\<forall>c \<in> set (children nd'). times (state c) \<noteq> []"
    by (simp add: first_unplayed_None)
  moreover have "expand g ancestors nd = Inl Unreachable"
    using gen ne None by (simp add: expand_def)
  ultimately show ?thesis by simp
next
  case (Some i)
  from first_unplayed_Some[OF Some] have i: "i < length (children nd')"
    "times (state (children nd' ! i)) = []" "\<forall>j<i. times (state (children nd' ! j)) \<noteq> []"
    by simp_all
  have "\<not> (\<forall>c \<in> set (children nd'). times (state c) \<noteq> [])"
    using i(1,2) nth_mem by blast
  moreover have "expand g ancestors nd = Inr (nd', Some i)"
    using gen ne Some by (simp add: expand_def)
  ultimately show ?thesis using i by auto
qed

lemma find_incomplete_None:
  "find_incomplete g path fs = Inr None \<Longrightarrow> \<forall>f \<in> set fs. set (preds_of g f) \<subseteq> set path"
proof (induction fs)
  case Nil
  then show ?case by simp
next
  case (Cons f fs)
  from Cons.prems obtain ps where ps: "map_at (preds g) f = Inr ps"
    by (cases "map_at (preds g) f") auto
  with Cons.prems have np: "\<not> list_ex (\<lambda>pred. pred \<notin> set path) ps"
    and rest: "find_incomplete g path fs = Inr None"
    by (auto split: if_splits sum.splits option.splits)
  from np have "set (preds_of g f) \<subseteq> set path"
    using map_at_preds_of[OF ps] by (auto simp: list_ex_iff)
  with Cons.IH[OF rest] show ?case by simp
qed

lemma find_incomplete_Some:
  "find_incomplete g path fs = Inr (Some i) \<Longrightarrow>
     i < length fs \<and> \<not> set (preds_of g (fs ! i)) \<subseteq> set path
     \<and> (\<forall>j<i. set (preds_of g (fs ! j)) \<subseteq> set path)"
proof (induction fs arbitrary: i)
  case Nil
  then show ?case by simp
next
  case (Cons f fs)
  from Cons.prems obtain ps where ps: "map_at (preds g) f = Inr ps"
    by (cases "map_at (preds g) f") auto
  show ?case
  proof (cases "list_ex (\<lambda>pred. pred \<notin> set path) ps")
    case True
    with Cons.prems ps have "i = 0" by simp
    moreover from True have "\<not> set (preds_of g f) \<subseteq> set path"
      using map_at_preds_of[OF ps] by (auto simp: list_ex_iff)
    ultimately show ?thesis by simp
  next
    case False
    with Cons.prems ps obtain k where k: "find_incomplete g path fs = Inr (Some k)" "i = Suc k"
      by (auto split: sum.splits option.splits)
    from False have fsub: "set (preds_of g f) \<subseteq> set path"
      using map_at_preds_of[OF ps] by (auto simp: list_ex_iff)
    from Cons.IH[OF k(1)] have IH: "k < length fs" "\<not> set (preds_of g (fs ! k)) \<subseteq> set path"
      "\<forall>j<k. set (preds_of g (fs ! j)) \<subseteq> set path" by simp_all
    have "set (preds_of g ((f # fs) ! j)) \<subseteq> set path" if "j < i" for j
    proof (cases j)
      case 0
      with fsub show ?thesis by simp
    next
      case (Suc j')
      with that k(2) IH(3) show ?thesis by simp
    qed
    with IH(1,2) k(2) show ?thesis by simp
  qed
qed

lemma filter_erase:
  assumes "i < length xs" and "\<not> P (xs ! i)"
  shows "filter P (erase i xs) = filter P xs"
proof -
  have "xs = take i xs @ xs ! i # drop (Suc i) xs"
    using assms(1) by (simp only: id_take_nth_drop[symmetric])
  then have "filter P xs = filter P (take i xs @ xs ! i # drop (Suc i) xs)" by simp
  also have "\<dots> = filter P (take i xs) @ filter P (drop (Suc i) xs)"
    using assms(2) by simp
  finally show ?thesis by (simp add: erase_def)
qed

lemma prune_filter:
  "prune g path frontier = Inr frontier' \<Longrightarrow>
     frontier' = filter (\<lambda>f. set (preds_of g f) \<subseteq> set path) frontier"
proof (induction g path frontier rule: prune.induct)
  case (1 g path frontier)
  show ?case
  proof (cases "find_incomplete g path frontier")
    case (Inl e)
    with "1.prems" show ?thesis by (simp add: prune.simps[of g path frontier])
  next
    case (Inr r)
    show ?thesis
    proof (cases r)
      case None
      with Inr "1.prems" have "frontier' = frontier" by (simp add: prune.simps[of g path frontier])
      moreover from None Inr have "\<forall>f \<in> set frontier. set (preds_of g f) \<subseteq> set path"
        by (simp add: find_incomplete_None)
      ultimately show ?thesis by simp
    next
      case (Some i)
      with Inr "1.prems" have "prune g path (erase i frontier) = Inr frontier'"
        by (simp add: prune.simps[of g path frontier])
      from "1.IH"[OF Inr Some this]
      have "frontier' = filter (\<lambda>f. set (preds_of g f) \<subseteq> set path) (erase i frontier)" .
      moreover from find_incomplete_Some Some Inr
      have "i < length frontier" "\<not> set (preds_of g (frontier ! i)) \<subseteq> set path" by blast+
      ultimately show ?thesis by (simp add: filter_erase)
    qed
  qed
qed

lemma push_unique_set:
  "set (foldl (\<lambda>f child. if child \<notin> set f then f @ [child] else f) frontier ss) = set frontier \<union> set ss"
  by (induction ss arbitrary: frontier) auto

lemma push_unique_distinct:
  "distinct frontier \<Longrightarrow> distinct (foldl (\<lambda>f child. if child \<notin> set f then f @ [child] else f) frontier ss)"
  by (induction ss arbitrary: frontier) auto

lemma collect_succs_set:
  "collect_succs g frontier path = Inr frontier' \<Longrightarrow>
     set frontier' = set frontier \<union> (\<Union>op \<in> set path. set (succs_of g op))
     \<and> (distinct frontier \<longrightarrow> distinct frontier')"
proof (induction path arbitrary: frontier)
  case Nil
  then show ?case by simp
next
  case (Cons op path)
  from Cons.prems obtain ss where ss: "map_at (succs g) op = Inr ss"
    by (cases "map_at (succs g) op") auto
  let ?f1 = "foldl (\<lambda>f child. if child \<notin> set f then f @ [child] else f) frontier ss"
  from Cons.prems ss have "collect_succs g ?f1 path = Inr frontier'" by simp
  from Cons.IH[OF this] show ?case
    using map_at_succs_of[OF ss] by (auto simp: push_unique_set push_unique_distinct)
qed

lemma foldl_erase_all:
  "foldl (\<lambda>f op. erase_all op f) frontier path = filter (\<lambda>s. s \<notin> set path) frontier"
proof (induction path arbitrary: frontier)
  case Nil
  then show ?case by simp
next
  case (Cons op path)
  have "filter (\<lambda>s. s \<notin> set path) (removeAll op frontier) = filter (\<lambda>s. s \<notin> set (op # path)) frontier"
    by (induction frontier) auto
  with Cons show ?case by (simp add: erase_all_removeAll)
qed

lemma make_children_spec:
  assumes "make_children g path nd = Inr nd'"
  shows "\<exists>frontier. nd' = Node (op_of nd) (children nd @ map new_Node frontier) True (fullyVisited nd) (n_of nd) (state nd)
           \<and> distinct frontier \<and> set frontier = path_candidates g path"
proof -
  from assms obtain f1 where f1: "collect_succs g [] path = Inr f1"
    by (cases "collect_succs g [] path") (auto simp: make_children_def)
  let ?f2 = "foldl (\<lambda>f op. erase_all op f) f1 path"
  from assms f1 obtain f3 where f3: "prune g path ?f2 = Inr f3"
    by (cases "prune g path ?f2") (auto simp: make_children_def)
  from assms f1 f3 have nd': "nd' = Node (op_of nd) (children nd @ map new_Node f3) True (fullyVisited nd) (n_of nd) (state nd)"
    by (simp add: make_children_def)
  from collect_succs_set[OF f1] have s1: "set f1 = (\<Union>op \<in> set path. set (succs_of g op))" "distinct f1"
    by simp_all
  from prune_filter[OF f3] have eq: "f3 = filter (\<lambda>f. set (preds_of g f) \<subseteq> set path) (filter (\<lambda>s. s \<notin> set path) f1)"
    by (simp add: foldl_erase_all)
  have "distinct f3" using eq s1(2) by simp
  moreover have "set f3 = path_candidates g path"
    using eq s1(1) by (auto simp: path_candidates_def)
  ultimately show ?thesis using nd' by blast
qed

section \<open>Lemmas about the driver of mcts.cpp\<close>

lemma p_make_children_no_playouts:
  assumes "p_make_children g path nd = Inr nd'" and "no_playouts nd"
  shows "no_playouts nd'"
proof -
  obtain op cs ts ex where nd: "nd = PlainNode op cs ts ex" by (cases nd)
  from assms(1) obtain frontier where "nd' = PlainNode op (cs @ map new_PlainNode frontier) ts True"
    by (auto simp: p_make_children_def nd split: sum.splits)
  with assms(2) show ?thesis
    by (auto simp: nd new_PlainNode_def list_all_iff)
qed

lemma p_expand_no_playouts:
  assumes "p_expand g ancestors nd = Inr (nd', r)" and "no_playouts nd"
  shows "no_playouts nd'"
proof (cases "p_is_terminal g nd")
  case (Inl e)
  with assms(1) show ?thesis by (simp add: p_expand_def)
next
  case (Inr b)
  show ?thesis
  proof (cases b)
    case True
    with Inr assms show ?thesis by (simp add: p_expand_def)
  next
    case False
    let ?gen = "if \<not> p_expanded nd then p_make_children g (p_op nd # ancestors) nd else Inr nd"
    from assms(1) Inr False obtain nd2 where gen: "?gen = Inr nd2"
      by (cases ?gen) (auto simp: p_expand_def)
    have np: "no_playouts nd2"
    proof (cases "p_expanded nd")
      case True
      with gen assms(2) show ?thesis by simp
    next
      case False
      with gen have "p_make_children g (p_op nd # ancestors) nd = Inr nd2" by simp
      then show ?thesis using assms(2) by (rule p_make_children_no_playouts)
    qed
    from assms(1) Inr False gen have "nd' = nd2"
      by (cases "p_children nd2 = []"; cases "p_first_unplayed (p_children nd2)")
         (simp_all add: p_expand_def)
    with np show ?thesis by simp
  qed
qed

lemma p_expand_at_no_playouts:
  "p_expand_at g ancestors loc nd = Inr (nd', loc') \<Longrightarrow> no_playouts nd \<Longrightarrow> no_playouts nd'"
proof (induction g ancestors loc nd arbitrary: nd' loc' rule: p_expand_at.induct)
  case (1 g ancestors nd)
  from "1.prems"(1) obtain r where "p_expand g ancestors nd = Inr (nd', r)"
    by (cases "p_expand g ancestors nd") (auto split: option.splits)
  then show ?case using "1.prems"(2) by (rule p_expand_no_playouts)
next
  case (2 g ancestors i loc op cs ts ex)
  show ?case
  proof (cases "i < length cs")
    case True
    with "2.prems"(1) obtain child' l where
      c: "p_expand_at g (op # ancestors) loc (cs ! i) = Inr (child', l)"
      and nd': "nd' = PlainNode op (cs[i := child']) ts ex"
      by (cases "p_expand_at g (op # ancestors) loc (cs ! i)") auto
    from "2.prems"(2) True have "no_playouts (cs ! i)" by (simp add: list_all_length)
    from "2.IH"[OF True c this] have "no_playouts child'" .
    with "2.prems"(2) True show ?thesis
      unfolding nd' by (auto simp: list_all_length nth_list_update)
  next
    case False
    with "2.prems" show ?thesis by simp
  qed
qed

lemma mcts_iteration_no_playouts:
  assumes "mcts_iteration uct gt neg_inf name ctx g rnd root = Inr (root', order)" and "no_playouts root"
  shows "no_playouts root'"
proof -
  from assms(1) obtain selected where "p_select uct gt neg_inf ctx g root = Inr selected"
    by (cases "p_select uct gt neg_inf ctx g root") (auto simp: mcts_iteration_def)
  with assms(1) obtain r child where ex: "p_expand_at g [] selected root = Inr (r, child)"
    by (cases "p_expand_at g [] selected root") (auto simp: mcts_iteration_def)
  with assms(1) \<open>p_select uct gt neg_inf ctx g root = Inr selected\<close> have "root' = r"
    by (auto simp: mcts_iteration_def split: sum.splits)
  with p_expand_at_no_playouts[OF ex assms(2)] show ?thesis by simp
qed

lemma mcts_loop_no_playouts:
  "mcts_loop uct gt neg_inf name ctx g rnd i n root = Inr root' \<Longrightarrow> no_playouts root \<Longrightarrow> no_playouts root'"
proof (induction n arbitrary: i root)
  case 0
  then show ?case by simp
next
  case (Suc n)
  from Suc.prems(1) obtain r order where it: "mcts_iteration uct gt neg_inf name ctx g (rnd i) root = Inr (r, order)"
    by (cases "mcts_iteration uct gt neg_inf name ctx g (rnd i) root") auto
  with Suc.prems(1) have "mcts_loop uct gt neg_inf name ctx g rnd (Suc i) n r = Inr root'" by simp
  moreover have "no_playouts r" using it Suc.prems(2) by (rule mcts_iteration_no_playouts)
  ultimately show ?case by (rule Suc.IH)
qed

lemma chain_first_iteration:
  "mcts_iteration flat_uct nat_gt 0 vertex_name () chain rand_zero (new_PlainNode 0)
     = Inr (PlainNode 0 [PlainNode 1 [] [] False] [] True, [0, 1])"
  by (simp add: mcts_iteration_def p_select.simps p_is_leaf_def new_PlainNode_def p_expand_def
      p_is_terminal_def p_make_children_def chain_def map_at_def erase_all.simps prune.simps
      get_simulation_order_cpp_def sim_loop_cpp.simps try_push_def mpi_bcast_def MPI_Bcast_def)

lemma chain_next_iteration:
  "mcts_iteration flat_uct nat_gt 0 vertex_name () chain rand_zero (PlainNode 0 [PlainNode 1 [] [] False] [] True)
     = Inr (PlainNode 0 [PlainNode 1 [] [] False] [] True, [0, 1])"
  by (simp add: mcts_iteration_def p_select.simps p_is_leaf_def new_PlainNode_def p_expand_def
      p_is_terminal_def p_make_children_def chain_def map_at_def erase_all.simps prune.simps
      get_simulation_order_cpp_def sim_loop_cpp.simps try_push_def mpi_bcast_def MPI_Bcast_def)

lemma chain_mcts:
  "mcts flat_uct nat_gt 0 vertex_name () chain rand_zeros = Inr (PlainNode 0 [PlainNode 1 [] [] False] [] True)"
proof -
  have loop: "mcts_loop flat_uct nat_gt 0 vertex_name () chain rand_zeros i n (PlainNode 0 [PlainNode 1 [] [] False] [] True)
      = Inr (PlainNode 0 [PlainNode 1 [] [] False] [] True)" for i n
  proof (induction n arbitrary: i)
    case 0
    show ?case by (simp only: mcts_loop.simps)
  next
    case (Suc n)
    show ?case
      by (simp only: mcts_loop.simps rand_zeros_def chain_next_iteration sum.case prod.case Suc[unfolded rand_zeros_def])
  qed
  have "mcts flat_uct nat_gt 0 vertex_name () chain rand_zeros
      = mcts_loop flat_uct nat_gt 0 vertex_name () chain rand_zeros 0 (Suc 9) (new_PlainNode 0)"
    by (simp add: mcts_def chain_def)
  also have "\<dots> = mcts_loop flat_uct nat_gt 0 vertex_name () chain rand_zeros (Suc 0) 9 (PlainNode 0 [PlainNode 1 [] [] False] [] True)"
    by (simp only: mcts_loop.simps rand_zeros_def chain_first_iteration sum.case prod.case)
  finally show ?thesis by (simp only: loop)
qed

section \<open>Lemmas about the frontier\<close>

lemma keep_uniques_subset: "set (keep_uniques eq xs) \<subseteq> set xs"
  by (induction eq xs rule: keep_uniques.induct) auto

lemma keep_uniques_no_dup:
  "i < j \<Longrightarrow> j < length (keep_uniques eq xs) \<Longrightarrow> \<not> eq (keep_uniques eq xs ! i) (keep_uniques eq xs ! j)"
proof (induction eq xs arbitrary: i j rule: keep_uniques.induct)
  case (1 eq)
  then show ?case by simp
next
  case (2 eq x xs)
  let ?r = "keep_uniques eq (filter (\<lambda>y. \<not> eq x y) xs)"
  have ku: "keep_uniques eq (x # xs) = x # ?r" by simp
  from "2.prems"(1) obtain j' where j: "j = Suc j'" by (cases j) simp_all
  from "2.prems"(2) have j': "j' < length ?r" unfolding ku j by simp
  show ?case
  proof (cases i)
    case 0
    from j' have "?r ! j' \<in> set ?r" by (rule nth_mem)
    then have "?r ! j' \<in> set (filter (\<lambda>y. \<not> eq x y) xs)"
      using keep_uniques_subset[of eq "filter (\<lambda>y. \<not> eq x y) xs"] by blast
    then have "\<not> eq x (?r ! j')" by simp
    then show ?thesis unfolding ku 0 j by simp
  next
    case (Suc i')
    with "2.prems"(1) j have "i' < j'" by simp
    from "2.IH"[OF this j'] show ?thesis unfolding ku Suc j by simp
  qed
qed

lemma select_candidates_sound:
  "select_candidates g cu completed ops = Inr candidates \<Longrightarrow> c \<in> set candidates \<Longrightarrow>
     c \<in> set ops \<and> \<not> cu completed c
     \<and> (\<exists>ps. map_at (preds g) c = Inr ps \<and> (\<forall>pred \<in> set ps. cu completed pred))"
proof (induction ops arbitrary: candidates)
  case Nil
  then show ?case by simp
next
  case (Cons cOp rest)
  show ?case
  proof (cases "cu completed cOp")
    case True
    with Cons.prems have "select_candidates g cu completed rest = Inr candidates" by simp
    from Cons.IH[OF this Cons.prems(2)] show ?thesis by simp
  next
    case False
    with Cons.prems(1) obtain ps where ps: "map_at (preds g) cOp = Inr ps"
      by (cases "map_at (preds g) cOp") auto
    show ?thesis
    proof (cases "list_all (cu completed) ps")
      case all: True
      with False ps Cons.prems(1) obtain cs where cs: "select_candidates g cu completed rest = Inr cs"
        and eq: "candidates = cOp # cs"
        by (cases "select_candidates g cu completed rest") auto
      show ?thesis
      proof (cases "c = cOp")
        case True
        with False ps all show ?thesis by (simp add: list_all_iff)
      next
        case False
        with eq Cons.prems(2) have "c \<in> set cs" by simp
        from Cons.IH[OF cs this] show ?thesis by simp
      qed
    next
      case nall: False
      with False ps Cons.prems(1) have "select_candidates g cu completed rest = Inr candidates" by simp
      from Cons.IH[OF this Cons.prems(2)] show ?thesis by simp
    qed
  qed
qed

lemma candidates_frontier_sound:
  "candidates_frontier variations is_synced make_syncs g completed plat cands = (frontier, plat') \<Longrightarrow>
   v \<in> set frontier \<Longrightarrow>
     \<exists>cand p bound. cand \<in> set cands \<and> bound \<in> set (fst (variations p cand))
        \<and> (if is_synced bound g completed then v = bound else v \<in> set (make_syncs bound g completed))"
proof (induction cands arbitrary: plat frontier plat')
  case Nil
  then show ?case by simp
next
  case (Cons c cs)
  obtain bounds plat1 where b: "variations plat c = (bounds, plat1)" by (cases "variations plat c")
  obtain fr plat2 where r: "candidates_frontier variations is_synced make_syncs g completed plat1 cs = (fr, plat2)"
    by (cases "candidates_frontier variations is_synced make_syncs g completed plat1 cs")
  from Cons.prems(1) b r have fr: "frontier = variation_frontier is_synced make_syncs g completed bounds @ fr"
    by simp
  with Cons.prems(2) consider "v \<in> set (variation_frontier is_synced make_syncs g completed bounds)" | "v \<in> set fr"
    by auto
  then show ?case
  proof cases
    case 1
    then obtain bound where bound: "bound \<in> set bounds"
      "v \<in> set (if is_synced bound g completed then [bound] else make_syncs bound g completed)"
      by (auto simp: variation_frontier_def)
    have "bound \<in> set (fst (variations plat c))" using b bound(1) by simp
    moreover have "if is_synced bound g completed then v = bound else v \<in> set (make_syncs bound g completed)"
      using bound(2) by (cases "is_synced bound g completed") simp_all
    ultimately show ?thesis by (intro exI[of _ c] exI[of _ plat] exI[of _ bound]) simp
  next
    case 2
    from Cons.IH[OF r 2] obtain cand p bound where "cand \<in> set cs" "bound \<in> set (fst (variations p cand))"
      "if is_synced bound g completed then v = bound else v \<in> set (make_syncs bound g completed)"
      by blast
    then show ?thesis by (intro exI[of _ cand] exI[of _ p] exI[of _ bound]) simp
  qed
qed

section \<open>Claims\<close>

subsection \<open>C1: the frontier is legal and has no duplicates\<close>

text \<open>
  C1: for every platform, graph and completed sequence, and for every synchronizer whose
  \<^verbatim>\<open>make_syncs\<close> returns synchronization operations only, every operation \<open>v\<close> of the list
  \<^verbatim>\<open>get_frontier\<close> returns is a synchronization operation, or it is a platform variation
  of a vertex of the graph all of whose predecessors are in the completed sequence
  under \<^verbatim>\<open>contains_unbound\<close>, and \<^verbatim>\<open>is_synced(v, G, C)\<close> holds; and no two elements of the list
  are value-equal. The predecessors of \<open>v\<close> in the graph are those of the vertex it is a
  variation of.
\<close>

theorem C1_frontier_legal:
  assumes syncs: "\<forall>bound. \<forall>s \<in> set (make_syncs bound g completed). is_sync_op s"
    and res: "get_frontier variations is_synced make_syncs contains_unbound cpu_eq gpu_eq plat g completed
                = Inr (frontier, plat')"
  shows "(\<forall>v \<in> set frontier.
            is_sync_op v
          \<or> (\<exists>cand p ps. v \<in> set (fst (variations p cand))
                \<and> map_at (preds g) cand = Inr ps
                \<and> (\<forall>pred \<in> set ps. contains_unbound completed pred)
                \<and> is_synced v g completed))
       \<and> (\<forall>i j. i < j \<and> j < length frontier \<longrightarrow>
              \<not> BoundOp_eq cpu_eq gpu_eq (frontier ! i) (frontier ! j))"
proof -
  let ?eq = "BoundOp_eq cpu_eq gpu_eq"
  from res obtain cands where cands:
    "select_candidates g contains_unbound completed (one_pred_completed g completed) = Inr cands"
    by (cases "select_candidates g contains_unbound completed (one_pred_completed g completed)")
       (auto simp: get_frontier_def)
  obtain fr p1 where fr: "candidates_frontier variations is_synced make_syncs g completed plat cands = (fr, p1)"
    by (cases "candidates_frontier variations is_synced make_syncs g completed plat cands")
  from res cands fr have frontier: "frontier = keep_uniques ?eq fr"
    by (simp add: get_frontier_def)
  have legal: "is_sync_op v
          \<or> (\<exists>cand p ps. v \<in> set (fst (variations p cand))
                \<and> map_at (preds g) cand = Inr ps
                \<and> (\<forall>pred \<in> set ps. contains_unbound completed pred)
                \<and> is_synced v g completed)" if v: "v \<in> set frontier" for v
  proof -
    from v frontier have "v \<in> set fr" using keep_uniques_subset[of ?eq fr] by blast
    from candidates_frontier_sound[OF fr this] obtain cand p bound where
      c: "cand \<in> set cands" and b: "bound \<in> set (fst (variations p cand))"
      and how: "if is_synced bound g completed then v = bound else v \<in> set (make_syncs bound g completed)"
      by blast
    show ?thesis
    proof (cases "is_synced bound g completed")
      case True
      with how have vb: "v = bound" by simp
      from select_candidates_sound[OF cands c] obtain ps where
        "map_at (preds g) cand = Inr ps" "\<forall>pred \<in> set ps. contains_unbound completed pred" by blast
      with b True vb show ?thesis by blast
    next
      case False
      with how have "v \<in> set (make_syncs bound g completed)" by simp
      with syncs show ?thesis by blast
    qed
  qed
  have nodup: "\<not> ?eq (frontier ! i) (frontier ! j)" if "i < j \<and> j < length frontier" for i j
    using that keep_uniques_no_dup[of i j ?eq fr] unfolding frontier by simp
  from legal nodup show ?thesis by blast
qed

theorem C1_frontier_legal_witness:
  "get_frontier two_streams synced_on_default sync_default_stream in_sequence string_eq string_eq ()
       example_graph [Cpu_op ''a'']
     = Inr ([BoundGpu_op (BoundGpuOp ''k'' (Stream 0)), StreamSync_op (new_StreamSync (Stream 0))], ())
   \<and> \<not> BoundOp_eq string_eq string_eq
         ([BoundGpu_op (BoundGpuOp ''k'' (Stream 0)), StreamSync_op (new_StreamSync (Stream 0))] ! 0)
         ([BoundGpu_op (BoundGpuOp ''k'' (Stream 0)), StreamSync_op (new_StreamSync (Stream 0))] ! 1)"
proof -
  let ?fr = "[BoundGpu_op (BoundGpuOp ''k'' (Stream 0)), StreamSync_op (new_StreamSync (Stream 0))] :: (string, string) BoundOp list"
  have syncs: "\<forall>bound. \<forall>s \<in> set (sync_default_stream bound example_graph [Cpu_op ''a'']). is_sync_op s"
    by (simp add: sync_default_stream_def)
  have res: "get_frontier two_streams synced_on_default sync_default_stream in_sequence string_eq string_eq ()
       example_graph [Cpu_op ''a''] = Inr (?fr, ())"
    by (simp add: get_frontier_def one_pred_completed_def succs_find_or_find_unbound_def
        push_unique_def example_graph_def in_sequence_def map_at_def variation_frontier_def
        sync_default_stream_def BoundOp_eq_def)
  from C1_frontier_legal[OF syncs res]
  have "\<forall>i j. i < j \<and> j < length ?fr \<longrightarrow> \<not> BoundOp_eq string_eq string_eq (?fr ! i) (?fr ! j)"
    by (rule conjunct2)
  then have "(0::nat) < 1 \<and> 1 < length ?fr \<longrightarrow> \<not> BoundOp_eq string_eq string_eq (?fr ! 0) (?fr ! 1)"
    by blast
  then have "\<not> BoundOp_eq string_eq string_eq (?fr ! 0) (?fr ! 1)" by simp
  with res show ?thesis by (intro conjI)
qed

subsection \<open>C2: the playout order is a topological sort\<close>

text \<open>
  C2, as stated, at a graph with a second source: \<open>start = 0\<close> with the edges \<open>0 \<rightarrow> 1\<close> and
  \<open>2 \<rightarrow> 1\<close>. The graph is acyclic and the start vertex has no predecessor. From the root
  node the playout returns \<open>[0]\<close>: vertex \<open>1\<close> is reachable from the start vertex and never
  appears, because its predecessor \<open>2\<close>, which no path from the start reaches, is never
  scheduled.
\<close>

theorem C2_second_source_counterexample:
  "get_simulation_order two_source rand_zero [start two_source] = Inr [0]
   \<and> (start two_source, 1) \<in> edges two_source
   \<and> 1 \<notin> set [0::nat]
   \<and> preds_of two_source (start two_source) = []
   \<and> acyclic (edges two_source)"
proof -
  have "get_simulation_order two_source rand_zero [start two_source] = Inr [0]"
    by (simp add: get_simulation_order_def two_source_def map_at_def try_push_def sim_loop.simps)
  moreover have "(start two_source, 1) \<in> edges two_source"
    by (simp add: edges_def succs_of_def two_source_def)
  moreover have "preds_of two_source (start two_source) = []"
    by (simp add: preds_of_def two_source_def)
  moreover have "acyclic (edges two_source)"
  proof (rule acyclicI_order[where f = "\<lambda>v. if v = (1::nat) then (0::nat) else 1"])
    fix a b assume "(a, b) \<in> edges two_source"
    then have "b = 1 \<and> a \<noteq> 1"
      by (auto simp: edges_def succs_of_def two_source_def split: if_splits)
    then show "(if b = 1 then 0::nat else 1) < (if a = 1 then 0 else 1)" by simp
  qed
  ultimately show ?thesis by simp
qed

text \<open>
  C2, amended: for every graph in which the start vertex is the only vertex without
  predecessors (and which is acyclic, with \<^verbatim>\<open>preds_\<close> the reverse of \<^verbatim>\<open>succs_\<close> and an entry
  in both maps for every vertex), for every node whose path from the root is legal
  (it starts at the start vertex and holds every vertex once, after all its
  predecessors), and for every sequence of random numbers, \<^verbatim>\<open>get_simulation_order\<close>
  returns a list; the list extends the path, holds exactly the vertices reachable from
  the start vertex, each once, and holds every vertex after all of its predecessors.
  No synchronization op is inserted: restricting the list to the graph's vertices
  changes nothing.
\<close>

theorem C2_simulation_order_topological:
  assumes "graph_ok g" and "path_ok g (rev to_root)"
  shows "\<exists>order. get_simulation_order g rnd to_root = Inr order
           \<and> get_simulation_order_cpp g rnd to_root = Inr order
           \<and> distinct order
           \<and> set order = {v. (start g, v) \<in> (edges g)\<^sup>*}
           \<and> (\<forall>i<length order. set (preds_of g (order ! i)) \<subseteq> set (take i order))
           \<and> filter (\<lambda>v. v \<in> verts g) order = order
           \<and> take (length to_root) order = rev to_root"
proof -
  from sim_inv_init[OF assms] obtain frontier where
    f: "init_frontier g (rev to_root) [] (rev to_root) = Inr frontier"
    and inv: "sim_inv g (rev to_root) frontier" by blast
  from sim_loop_ok[OF assms(1) inv, of rnd 0] obtain order where
    o: "sim_loop g rnd 0 (rev to_root) frontier = Inr order" "topo_prefix g order"
    "set order = verts g" "take (length (rev to_root)) order = rev to_root" by blast
  have 1: "get_simulation_order g rnd to_root = Inr order"
    using f o(1) by (simp add: get_simulation_order_def)
  have 7: "get_simulation_order_cpp g rnd to_root = Inr order"
    using 1 by (simp add: get_simulation_order_cpp_eq)
  have 2: "distinct order" using o(2) by (simp add: topo_prefix_def)
  have 3: "set order = {v. (start g, v) \<in> (edges g)\<^sup>*}"
    using o(3) reachable_verts[OF assms(1)] by simp
  have 4: "\<forall>i<length order. set (preds_of g (order ! i)) \<subseteq> set (take i order)"
    using o(2) by (simp add: topo_prefix_def)
  have 5: "filter (\<lambda>v. v \<in> verts g) order = order"
    using o(3) by simp
  have 6: "take (length to_root) order = rev to_root" using o(4) by simp
  show ?thesis
    by (intro exI[of _ order] conjI) (fact 1 2 3 4 5 6 7)+
qed

theorem C2_simulation_order_topological_witness:
  "graph_ok diamond \<and> path_ok diamond (rev [0])
   \<and> (\<exists>order. get_simulation_order diamond rand_zero [0] = Inr order
          \<and> distinct order \<and> set order = {v. (start diamond, v) \<in> (edges diamond)\<^sup>*})"
proof -
  from C2_simulation_order_topological[OF graph_ok_diamond path_ok_diamond, of rand_zero]
  obtain order where "get_simulation_order diamond rand_zero [0] = Inr order"
    "distinct order" "set order = {v. (start diamond, v) \<in> (edges diamond)\<^sup>*}"
    by (elim exE conjE) (rule that; assumption)
  then have "\<exists>order. get_simulation_order diamond rand_zero [0] = Inr order
          \<and> distinct order \<and> set order = {v. (start diamond, v) \<in> (edges diamond)\<^sup>*}"
    by (intro exI[of _ order] conjI)
  with graph_ok_diamond path_ok_diamond show ?thesis by (intro conjI)
qed

subsection \<open>C4: backpropagation\<close>



subsection \<open>C5: the node returned by \<^verbatim>\<open>expand\<close>\<close>

text \<open>
  C5: when child generation succeeds and leaves the node with children, \<^verbatim>\<open>expand\<close> raises
  the "unreachable" error if every child has a playout, and otherwise returns the first
  child without one; it does nothing else. A child has no playout when its
  \<^verbatim>\<open>state_.times\<close> is empty, which is what the code tests.
\<close>

theorem C5_expand_first_unplayed:
  assumes "generate_children g ancestors nd = Inr nd'" and "children nd' \<noteq> []"
  shows "if (\<forall>c \<in> set (children nd'). times (state c) \<noteq> [])
         then expand g ancestors nd = Inl Unreachable
         else (\<exists>i < length (children nd'). expand g ancestors nd = Inr (nd', Some i)
                 \<and> times (state (children nd' ! i)) = []
                 \<and> (\<forall>j<i. times (state (children nd' ! j)) \<noteq> []))"
  using assms by (rule expand_result)

theorem C5_expand_first_unplayed_witness:
  "generate_children fork [] (Node 0 [Node 1 [] False False 1 \<lparr>times = [7::nat]\<rparr>, new_Node 2] True False 1 \<lparr>times = [7]\<rparr>)
     = Inr (Node 0 [Node 1 [] False False 1 \<lparr>times = [7]\<rparr>, new_Node 2] True False 1 \<lparr>times = [7]\<rparr>)
   \<and> (\<exists>i. expand fork [] (Node 0 [Node 1 [] False False 1 \<lparr>times = [7::nat]\<rparr>, new_Node 2] True False 1 \<lparr>times = [7]\<rparr>)
          = Inr (Node 0 [Node 1 [] False False 1 \<lparr>times = [7]\<rparr>, new_Node 2] True False 1 \<lparr>times = [7]\<rparr>, Some i))"
proof -
  let ?nd = "Node 0 [Node 1 [] False False 1 \<lparr>times = [7::nat]\<rparr>, new_Node 2] True False 1 \<lparr>times = [7]\<rparr> :: (nat, nat) Node"
  have gen: "generate_children fork [] ?nd = Inr ?nd" by (simp add: generate_children_def)
  have ne: "children ?nd \<noteq> []" by simp
  have unplayed: "\<not> (\<forall>c \<in> set (children ?nd). times (state c) \<noteq> [])"
    by (simp add: new_Node_def)
  from C5_expand_first_unplayed[OF gen ne] unplayed
  have "\<exists>i < length (children ?nd). expand fork [] ?nd = Inr (?nd, Some i)
                 \<and> times (state (children ?nd ! i)) = []
                 \<and> (\<forall>j<i. times (state (children ?nd ! j)) \<noteq> [])"
    by (simp only: if_False)
  then have "\<exists>i. expand fork [] ?nd = Inr (?nd, Some i)" by blast
  with gen show ?thesis by (intro conjI)
qed

subsection \<open>C6: equality of bound operations\<close>

text \<open>
  C6, as stated, at two event records built by the constructor for different events and
  different streams: they compare equal although neither the event nor the stream agrees.
\<close>

theorem C6_sync_eq_ignores_fields_counterexample:
  "CudaEventRecord_eq (new_CudaEventRecord (Event 0) (Stream 0)) (new_CudaEventRecord (Event 1) (Stream 1))
   \<and> cer_event (new_CudaEventRecord (Event 0) (Stream 0)) \<noteq> cer_event (new_CudaEventRecord (Event 1) (Stream 1))
   \<and> cer_stream (new_CudaEventRecord (Event 0) (Stream 0)) \<noteq> cer_stream (new_CudaEventRecord (Event 1) (Stream 1))"
  by (simp add: CudaEventRecord_eq_def new_CudaEventRecord_def)

text \<open>
  C6, amended: two \<^verbatim>\<open>BoundGpuOp\<close>s are equal if and only if they have the same stream and
  their underlying \<^verbatim>\<open>GpuOp\<close>s are equal. Two \<^verbatim>\<open>StreamWait\<close>s, two \<^verbatim>\<open>CudaEventRecord\<close>s, two
  \<^verbatim>\<open>CudaStreamWaitEvent\<close>s and two \<^verbatim>\<open>CudaEventSync\<close>s are equal if and only if their names are
  equal (stream and event are not compared), and any two \<^verbatim>\<open>StreamSync\<close>s are equal.
\<close>

theorem C6_bound_op_equality:
  "BoundGpuOp_eq gpu_eq (BoundGpuOp x s) (BoundGpuOp y t) = (s = t \<and> gpu_eq x y)
   \<and> StreamWait_eq (StreamWait n1 e1 a1 b1) (StreamWait n2 e2 a2 b2) = (n1 = n2)
   \<and> CudaEventRecord_eq (CudaEventRecord n1 e1 a1) (CudaEventRecord n2 e2 a2) = (n1 = n2)
   \<and> CudaStreamWaitEvent_eq (CudaStreamWaitEvent n1 a1 e1) (CudaStreamWaitEvent n2 a2 e2) = (n1 = n2)
   \<and> CudaEventSync_eq (CudaEventSync n1 e1) (CudaEventSync n2 e2) = (n1 = n2)
   \<and> StreamSync_eq (StreamSync n1 a1) (StreamSync n2 a2)"
  by (simp add: BoundGpuOp_eq_def StreamWait_eq_def CudaEventRecord_eq_def
      CudaStreamWaitEvent_eq_def CudaEventSync_eq_def StreamSync_eq_def)

subsection \<open>C7: what the receivers hold after the broadcast\<close>

text \<open>
  C7, as stated, at two bound GPU ops with the same name on streams 0 and 1, held in this
  order by rank 0 and by the receiver: the receiver resolves both names to its first op
  and ends with an op on stream 0 in second place, where rank 0 has the op on stream 1.
  (\<^verbatim>\<open>BoundGpuOp\<close> is the operation with a stream: "a wrapper that turns a Gpu node into a
  CPU node by running it in a specific stream". Only names are sent.)
\<close>

theorem C7_stream_not_transmitted_counterexample:
  "mpi_bcast (BoundGpuOp_name kernel_name) 1
      [BoundGpuOp ''k'' (Stream 0), BoundGpuOp ''k'' (Stream 1)]
      [BoundGpuOp ''k'' (Stream 0), BoundGpuOp ''k'' (Stream 1)]
    = Inr [BoundGpuOp ''k'' (Stream 0), BoundGpuOp ''k'' (Stream 0)]
   \<and> bgo_stream ([BoundGpuOp ''k'' (Stream 0), BoundGpuOp ''k'' (Stream 0)] ! 1)
       \<noteq> bgo_stream ([BoundGpuOp ''k'' (Stream 0), BoundGpuOp ''k'' (Stream 1)] ! 1)"
  by (simp add: mpi_bcast_def MPI_Bcast_def BoundGpuOp_name_def kernel_name_def)

text \<open>
  C7, amended: after \<^verbatim>\<open>mpi_bcast\<close> a rank other than 0 holds a list of its own local
  operations whose names are, element by element, the names of rank 0's list. If some
  name of rank 0's list is the name of no local operation, the call fails and produces
  no list; when the local list is as long as rank 0's, it fails with the fatal error
  for such a name. If the local list is as long as rank 0's, holds every operation of
  rank 0's list and holds no two operations with the same name, the receiver ends with
  rank 0's list itself (and so with the same streams).
\<close>

theorem C7_bcast_by_name:
  assumes "rank \<noteq> 0"
  shows "(mpi_bcast name rank root_order order = Inr received \<longrightarrow>
            map name received = map name root_order \<and> set received \<subseteq> set order)
       \<and> ((\<exists>x \<in> set root_order. name x \<notin> name ` set order) \<longrightarrow>
            (\<exists>e. mpi_bcast name rank root_order order = Inl e)
          \<and> (length order = length root_order \<longrightarrow>
               (\<exists>n. mpi_bcast name rank root_order order = Inl (NameNotFound n)
                    \<and> n \<in> name ` set root_order \<and> n \<notin> name ` set order)))
       \<and> (length order = length root_order \<and> distinct (map name order) \<and> set root_order \<subseteq> set order \<longrightarrow>
            mpi_bcast name rank root_order order = Inr root_order)"
proof -
  have by_name: "mpi_bcast name rank root_order order = Inr received \<longrightarrow>
            map name received = map name root_order \<and> set received \<subseteq> set order"
  proof
    assume r: "mpi_bcast name rank root_order order = Inr received"
    with assms obtain pos where pos: "find_positions name order (map name root_order) = Inr pos"
      and rec: "received = map (\<lambda>oi. order ! oi) pos"
      by (auto simp: mpi_bcast_recv split: if_splits sum.splits)
    from find_positions_Inr[OF pos] have len: "length pos = length root_order"
      and fo: "\<forall>i<length root_order. find_op name order (name (root_order ! i)) = Some (pos ! i)"
      by simp_all
    have at: "pos ! i < length order \<and> name (order ! (pos ! i)) = name (root_order ! i)"
      if "i < length root_order" for i
      using fo that find_op_Some[of name order "name (root_order ! i)" "pos ! i"] by simp
    then have names: "map name received = map name root_order"
      using len rec by (auto intro!: nth_equalityI)
    have "set received \<subseteq> set order"
    proof
      fix x assume "x \<in> set received"
      then obtain i where i: "i < length pos" "x = order ! (pos ! i)"
        using rec by (auto simp: in_set_conv_nth)
      then have "pos ! i < length order" using at len by simp
      with i(2) show "x \<in> set order" by simp
    qed
    with names show "map name received = map name root_order \<and> set received \<subseteq> set order"
      by (rule conjI)
  qed
  have fatal: "(\<exists>x \<in> set root_order. name x \<notin> name ` set order) \<longrightarrow>
            (\<exists>e. mpi_bcast name rank root_order order = Inl e)
          \<and> (length order = length root_order \<longrightarrow>
               (\<exists>n. mpi_bcast name rank root_order order = Inl (NameNotFound n)
                    \<and> n \<in> name ` set root_order \<and> n \<notin> name ` set order))"
  proof
    assume "\<exists>x \<in> set root_order. name x \<notin> name ` set order"
    then obtain x where x: "x \<in> set root_order" "name x \<notin> name ` set order" by blast
    then have "name x \<in> set (map name root_order)" by simp
    from find_positions_fails[OF this x(2)] obtain e where
      e: "find_positions name order (map name root_order) = Inl e" by blast
    from find_positions_Inl[OF e] obtain n where n: "n \<in> set (map name root_order)"
      "e = NameNotFound n" "n \<notin> name ` set order" by blast
    have named: "length order = length root_order \<longrightarrow>
               (\<exists>n. mpi_bcast name rank root_order order = Inl (NameNotFound n)
                    \<and> n \<in> name ` set root_order \<and> n \<notin> name ` set order)"
    proof
      assume "length order = length root_order"
      then have "mpi_bcast name rank root_order order = Inl (NameNotFound n)"
        using e n(2) assms by (simp add: mpi_bcast_recv)
      moreover have "n \<in> name ` set root_order" using n(1) by simp
      ultimately show "\<exists>n. mpi_bcast name rank root_order order = Inl (NameNotFound n)
                    \<and> n \<in> name ` set root_order \<and> n \<notin> name ` set order"
        using n(3) by blast
    qed
    have fails: "\<exists>e. mpi_bcast name rank root_order order = Inl e"
    proof (cases "length order = length root_order")
      case True
      with named show ?thesis by blast
    next
      case False
      then show ?thesis using assms by (simp add: mpi_bcast_recv)
    qed
    from fails named show "(\<exists>e. mpi_bcast name rank root_order order = Inl e)
          \<and> (length order = length root_order \<longrightarrow>
               (\<exists>n. mpi_bcast name rank root_order order = Inl (NameNotFound n)
                    \<and> n \<in> name ` set root_order \<and> n \<notin> name ` set order))"
      by (rule conjI)
  qed
  have same: "length order = length root_order \<and> distinct (map name order) \<and> set root_order \<subseteq> set order \<longrightarrow>
            mpi_bcast name rank root_order order = Inr root_order"
  proof
    assume a: "length order = length root_order \<and> distinct (map name order) \<and> set root_order \<subseteq> set order"
    then obtain pos where "find_positions name order (map name root_order) = Inr pos"
      "map (\<lambda>oi. order ! oi) pos = root_order"
      using find_positions_distinct[of name order root_order] by blast
    then show "mpi_bcast name rank root_order order = Inr root_order"
      using a assms by (simp add: mpi_bcast_recv)
  qed
  from by_name fatal same show ?thesis by (intro conjI)
qed

theorem C7_bcast_by_name_witness:
  "mpi_bcast kernel_name 1 [''b'', ''a''] [''a'', ''b''] = Inr [''b'', ''a'']
   \<and> (\<exists>n. mpi_bcast kernel_name 1 [''c'', ''a''] [''a'', ''b''] = Inl (NameNotFound n))
   \<and> map kernel_name [''b'', ''a''] = map kernel_name [''b'', ''a'']"
proof -
  have r: "(1::nat) \<noteq> 0" by simp
  note t1 = C7_bcast_by_name[OF r, of kernel_name "[''b'', ''a'']" "[''a'', ''b'']" "[''b'', ''a'']"]
  note t2 = C7_bcast_by_name[OF r, of kernel_name "[''c'', ''a'']" "[''a'', ''b'']" "[]"]
  have a: "mpi_bcast kernel_name 1 [''b'', ''a''] [''a'', ''b''] = Inr [''b'', ''a'']"
    using t1 by (simp add: kernel_name_def)
  have b: "\<exists>n. mpi_bcast kernel_name 1 [''c'', ''a''] [''a'', ''b''] = Inl (NameNotFound n)"
    using t2 by (auto simp add: kernel_name_def)
  from a b show ?thesis by simp
qed

subsection \<open>C8: the driver loop of mcts.cpp\<close>

text \<open>
  C8, as stated, on the chain \<open>0 \<rightarrow> 1\<close>: after the ten passes of \<^verbatim>\<open>mcts\<close> the tree is the root
  with its one child and no node has a playout time, whereas one \<^verbatim>\<open>backprop\<close> on the
  child would have recorded the time in the child and in the root.
\<close>

theorem C8_no_backprop_counterexample:
  "mcts flat_uct nat_gt 0 vertex_name () chain rand_zeros = Inr (PlainNode 0 [PlainNode 1 [] [] False] [] True)
   \<and> p_times (PlainNode 0 [PlainNode 1 [] [] False] [] True :: (nat, nat) PlainNode) = []
   \<and> p_backprop 5 [0] (PlainNode 0 [PlainNode 1 [] [] False] [] True :: (nat, nat) PlainNode)
       = PlainNode 0 [PlainNode 1 [] [5] False] [5] True"
  using chain_mcts by simp

text \<open>
  C8, amended: in every iteration of the rank-0 driver loop \<^verbatim>\<open>mcts(g, comm)\<close> an ordering
  is selected, expanded, generated and broadcast, and nothing is benchmarked or
  backpropagated (the code that would do so is compiled out): an iteration that starts
  from a tree without playout times ends with one, and so does \<^verbatim>\<open>mcts\<close>.
\<close>

theorem C8_driver_records_no_playout:
  "(mcts_iteration uct gt neg_inf name ctx g rnd1 root = Inr (root', order) \<and> no_playouts root \<longrightarrow>
      no_playouts root')
   \<and> (mcts uct gt neg_inf name ctx g rnd = Inr final \<longrightarrow> no_playouts final)"
proof (intro conjI impI)
  assume "mcts_iteration uct gt neg_inf name ctx g rnd1 root = Inr (root', order) \<and> no_playouts root"
  then have a: "mcts_iteration uct gt neg_inf name ctx g rnd1 root = Inr (root', order)"
    and b: "no_playouts root" by simp_all
  from a b show "no_playouts root'" by (rule mcts_iteration_no_playouts)
next
  assume "mcts uct gt neg_inf name ctx g rnd = Inr final"
  then have "mcts_loop uct gt neg_inf name ctx g rnd 0 10 (new_PlainNode (start g)) = Inr final"
    by (simp add: mcts_def)
  moreover have "no_playouts (new_PlainNode (start g) :: ('a, 'b) PlainNode)"
    by (simp add: new_PlainNode_def)
  ultimately show "no_playouts final" by (rule mcts_loop_no_playouts)
qed

theorem C8_driver_records_no_playout_witness:
  "mcts flat_uct nat_gt 0 vertex_name () chain rand_zeros = Inr (PlainNode 0 [PlainNode 1 [] [] False] [] True)
   \<and> no_playouts (PlainNode 0 [PlainNode 1 [] [] False] [] True :: (nat, nat) PlainNode)"
proof -
  from C8_driver_records_no_playout[of flat_uct nat_gt 0 vertex_name "()" chain rand_zero
      "new_PlainNode 0" "PlainNode 0 [PlainNode 1 [] [] False] [] True" "[0, 1]" rand_zeros
      "PlainNode 0 [PlainNode 1 [] [] False] [] True"]
  have "mcts flat_uct nat_gt 0 vertex_name () chain rand_zeros = Inr (PlainNode 0 [PlainNode 1 [] [] False] [] True)
      \<longrightarrow> no_playouts (PlainNode 0 [PlainNode 1 [] [] False] [] True :: (nat, nat) PlainNode)"
    by (rule conjunct2)
  with chain_mcts show ?thesis by simp
qed

subsection \<open>C9: nodes without children\<close>

text \<open>
  C9, as stated, on two small graphs. In the chain \<open>0 \<rightarrow> 1\<close>, expanding the root creates the
  child for op \<open>1\<close>, which has no successors; the first backprop that visits it
  leaves its \<^verbatim>\<open>fullyVisited_\<close> false, because the node is not expanded yet. In the fork
  \<open>0 \<rightarrow> 1\<close>, \<open>0 \<rightarrow> 2\<close>, expanding the node for op \<open>1\<close> (which has no successors) under the
  root gives it the child for op \<open>2\<close>.
\<close>

theorem C9_first_backprop_counterexample:
  "expand chain [] (new_Node 0 :: (nat, nat) Node) = Inr (Node 0 [new_Node 1] True False 0 \<lparr>times = []\<rparr>, Some 0)
   \<and> is_terminal chain (new_Node 1 :: (nat, nat) Node) = Inr True
   \<and> backprop record_time 7 [0] () (Node 0 [new_Node 1] True False 0 \<lparr>times = []\<rparr>)
        = ((), Node 0 [Node 1 [] False False 1 \<lparr>times = [7]\<rparr>] True False 1 \<lparr>times = [7]\<rparr>)
   \<and> is_terminal fork (new_Node 1 :: (nat, nat) Node) = Inr True
   \<and> expand fork [0] (new_Node 1 :: (nat, nat) Node) = Inr (Node 1 [new_Node 2] True False 0 \<lparr>times = []\<rparr>, Some 0)"
proof -
  have 1: "expand chain [] (new_Node 0 :: (nat, nat) Node) = Inr (Node 0 [new_Node 1] True False 0 \<lparr>times = []\<rparr>, Some 0)"
    by (simp add: expand_def generate_children_def make_children_def new_Node_def chain_def
        map_at_def erase_def erase_all.simps prune.simps)
  have 2: "is_terminal chain (new_Node 1 :: (nat, nat) Node) = Inr True"
    by (simp add: is_terminal_def new_Node_def chain_def map_at_def)
  have 3: "backprop record_time 7 [0] () (Node 0 [new_Node 1] True False 0 \<lparr>times = []\<rparr>)
        = ((), Node 0 [Node 1 [] False False 1 \<lparr>times = [7]\<rparr>] True False 1 \<lparr>times = [7]\<rparr>)"
    by (simp add: record_time_def new_Node_def)
  have 4: "is_terminal fork (new_Node 1 :: (nat, nat) Node) = Inr True"
    by (simp add: is_terminal_def new_Node_def fork_def map_at_def)
  have 5: "expand fork [0] (new_Node 1 :: (nat, nat) Node) = Inr (Node 1 [new_Node 2] True False 0 \<lparr>times = []\<rparr>, Some 0)"
    by (simp add: expand_def generate_children_def make_children_def new_Node_def fork_def
        map_at_def erase_def erase_all.simps prune.simps)
  from 1 2 3 4 5 show ?thesis by (intro conjI)
qed

text \<open>
  C9, amended: a backprop that visits a node without children leaves it without children
  and sets its \<^verbatim>\<open>fullyVisited_\<close> to true if and only if the node is expanded (or the flag was
  true already); so the first backprop of a freshly created node leaves the flag as it
  is, and a backprop after \<^verbatim>\<open>expand\<close> found no child sets it. \<^verbatim>\<open>expand\<close> on an unexpanded
  node marks it expanded and appends one child for each operation that is a successor of
  an op on the path from the root to the node, is not on the path, and has all its
  predecessors on the path; it returns the node itself exactly when the node then has no
  children.
\<close>

theorem C9_childless_nodes:
  "(node_at t loc = Some nd \<and> children nd = [] \<and> backprop sb br loc ctx t = (ctx', t') \<longrightarrow>
      (\<exists>nd'. node_at t' loc = Some nd' \<and> children nd' = []
          \<and> fullyVisited nd' = (fullyVisited nd \<or> expanded nd)))
   \<and> (\<not> expanded nd0 \<and> expand g ancestors nd0 = Inr (nd1, r) \<longrightarrow>
        expanded nd1
        \<and> (\<exists>frontier. children nd1 = children nd0 @ map new_Node frontier \<and> distinct frontier
              \<and> set frontier = path_candidates g (op_of nd0 # ancestors))
        \<and> (r = None \<longleftrightarrow> children nd1 = []))"
proof (intro conjI impI)
  assume a: "node_at t loc = Some nd \<and> children nd = [] \<and> backprop sb br loc ctx t = (ctx', t')"
  then have at: "node_at t loc \<noteq> None" and bp: "backprop sb br loc ctx t = (ctx', t')" by simp_all
  from backprop_path[OF at bp] have
    "prefix loc loc \<longrightarrow> (\<exists>a a'. node_at t loc = Some a \<and> node_at t' loc = Some a' \<and> visited_update sb br a a')"
    by blast
  then obtain nd' where nd': "node_at t' loc = Some nd'" and vu: "visited_update sb br nd nd'"
    using a by auto
  from vu a have ch: "children nd' = []" by (simp add: visited_update_def)
  with vu have "fullyVisited nd' = (fullyVisited nd \<or> expanded nd)"
    by (simp add: visited_update_def)
  with nd' ch show "\<exists>nd'. node_at t' loc = Some nd' \<and> children nd' = []
          \<and> fullyVisited nd' = (fullyVisited nd \<or> expanded nd)" by blast
next
  assume b: "\<not> expanded nd0 \<and> expand g ancestors nd0 = Inr (nd1, r)"
  then obtain nd2 where gen: "generate_children g ancestors nd0 = Inr nd2"
    by (cases "generate_children g ancestors nd0") (auto simp: expand_def)
  with b have res: "(if children nd2 = [] then Inr (nd2, None)
          else (case first_unplayed (children nd2) of
                  Some i \<Rightarrow> Inr (nd2, Some i) | None \<Rightarrow> Inl Unreachable)) = Inr (nd1, r)"
    by (simp add: expand_def)
  have eq: "nd2 = nd1" and r: "r = None \<longleftrightarrow> children nd1 = []"
  proof -
    show "nd2 = nd1" using res
      by (cases "children nd2 = []"; cases "first_unplayed (children nd2)") simp_all
    then show "r = None \<longleftrightarrow> children nd1 = []" using res
      by (cases "children nd2 = []"; cases "first_unplayed (children nd2)") auto
  qed
  from gen b eq have mk: "make_children g (op_of nd0 # ancestors) nd0 = Inr nd1"
    by (simp add: generate_children_def)
  from make_children_spec[OF mk] obtain frontier where
    fr: "nd1 = Node (op_of nd0) (children nd0 @ map new_Node frontier) True (fullyVisited nd0) (n_of nd0) (state nd0)"
    "distinct frontier" "set frontier = path_candidates g (op_of nd0 # ancestors)" by blast
  from fr(1) show "expanded nd1" by simp
  from fr(1) have "children nd1 = children nd0 @ map new_Node frontier" by simp
  with fr(2,3) show "\<exists>frontier. children nd1 = children nd0 @ map new_Node frontier \<and> distinct frontier
              \<and> set frontier = path_candidates g (op_of nd0 # ancestors)" by blast
  from r show "r = None \<longleftrightarrow> children nd1 = []" .
qed

theorem C9_childless_nodes_witness:
  "node_at (Node 0 [Node 1 [] True False 1 \<lparr>times = [7]\<rparr>] True False 1 \<lparr>times = [7]\<rparr>) [0]
      = Some (Node 1 [] True False 1 \<lparr>times = [7::nat]\<rparr> :: (nat, nat) Node)
   \<and> (\<exists>nd'. node_at (snd (backprop record_time 7 [0] ()
                 (Node 0 [Node 1 [] True False 1 \<lparr>times = [7]\<rparr>] True False 1 \<lparr>times = [7]\<rparr>))) [0] = Some nd'
          \<and> fullyVisited nd')
   \<and> expand chain [0] (Node 1 [] False False 1 \<lparr>times = [7::nat]\<rparr>)
        = Inr (Node 1 [] True False 1 \<lparr>times = [7::nat]\<rparr>, None)
   \<and> path_candidates chain [1, 0] = {}"
proof -
  let ?t = "Node 0 [Node 1 [] True False 1 \<lparr>times = [7]\<rparr>] True False 1 \<lparr>times = [7]\<rparr> :: (nat, nat) Node"
  let ?nd = "Node 1 [] True False 1 \<lparr>times = [7::nat]\<rparr> :: (nat, nat) Node"
  let ?fresh = "Node 1 [] False False 1 \<lparr>times = [7::nat]\<rparr> :: (nat, nat) Node"
  let ?t' = "Node 0 [Node 1 [] True True 2 \<lparr>times = [7, 7]\<rparr>] True True 2 \<lparr>times = [7, 7]\<rparr> :: (nat, nat) Node"
  have bp: "backprop record_time 7 [0] () ?t = ((), ?t')"
    by (simp add: record_time_def)
  have at: "node_at ?t [0] = Some ?nd" by simp
  have ex: "expand chain [0] ?fresh = Inr (?nd, None)"
    by (simp add: expand_def generate_children_def make_children_def chain_def
        map_at_def erase_def erase_all.simps prune.simps)
  note inst = C9_childless_nodes[of "?t" "[0]" "?nd" record_time 7 "()" "()" "?t'" "?fresh" chain "[0]" "?nd" None]
  from inst at bp have "\<exists>nd'. node_at ?t' [0] = Some nd' \<and> children nd' = []
          \<and> fullyVisited nd' = (fullyVisited ?nd \<or> expanded ?nd)" by simp
  then have a: "\<exists>nd'. node_at (snd (backprop record_time 7 [0] () ?t)) [0] = Some nd' \<and> fullyVisited nd'"
    using bp by auto
  from inst ex have "\<exists>frontier. children ?nd = children ?fresh @ map new_Node frontier \<and> distinct frontier
              \<and> set frontier = path_candidates chain (op_of ?fresh # [0])" by simp
  then have b: "path_candidates chain [1, 0] = {}" by auto
  from at a ex b show ?thesis by (intro conjI)
qed

subsection \<open>C10: duplicate names in the broadcast\<close>

text \<open>
  C10: on a rank other than 0, each position of the result holds the first local
  operation with the name broadcast for that position. Two positions with the same
  name hold the same local operation, and a local operation that comes after another
  with the same name appears nowhere in the result. So if rank 0's list holds the same
  name twice, the positions chosen are not pairwise distinct and do not cover the local
  list: the result is not a permutation of it.
\<close>

theorem C10_first_match_duplicates:
  assumes "rank \<noteq> 0" and "mpi_bcast name rank root_order order = Inr received"
  shows "\<exists>pos. find_positions name order (map name root_order) = Inr pos
           \<and> received = map (\<lambda>oi. order ! oi) pos
           \<and> length pos = length root_order \<and> length order = length root_order
           \<and> (\<forall>i<length root_order. pos ! i < length order
                 \<and> name (order ! (pos ! i)) = name (root_order ! i)
                 \<and> (\<forall>k<pos ! i. name (order ! k) \<noteq> name (root_order ! i)))
           \<and> (\<forall>i<length root_order. \<forall>j<length root_order.
                 name (root_order ! i) = name (root_order ! j) \<longrightarrow> pos ! i = pos ! j)
           \<and> (\<forall>k<length order. (\<exists>k'<k. name (order ! k') = name (order ! k)) \<longrightarrow> k \<notin> set pos)
           \<and> ((\<exists>i j. i < j \<and> j < length root_order \<and> name (root_order ! i) = name (root_order ! j))
                 \<longrightarrow> \<not> distinct pos \<and> set pos \<noteq> {..<length order})"
proof -
  note recv = assms(2)[unfolded mpi_bcast_recv[OF assms(1)]]
  from recv have leq: "length order = length root_order"
    by (simp split: if_splits)
  with recv obtain pos where pos: "find_positions name order (map name root_order) = Inr pos"
    and rec: "received = map (\<lambda>oi. order ! oi) pos"
    by (cases "find_positions name order (map name root_order)") auto
  from find_positions_Inr[OF pos] have len: "length pos = length root_order"
    and fo: "\<forall>i<length root_order. find_op name order (name (root_order ! i)) = Some (pos ! i)"
    by simp_all
  have first: "\<forall>i<length root_order. pos ! i < length order
                 \<and> name (order ! (pos ! i)) = name (root_order ! i)
                 \<and> (\<forall>k<pos ! i. name (order ! k) \<noteq> name (root_order ! i))"
  proof (intro allI impI)
    fix i assume "i < length root_order"
    with fo have "find_op name order (name (root_order ! i)) = Some (pos ! i)" by simp
    from find_op_Some[OF this] show "pos ! i < length order
                 \<and> name (order ! (pos ! i)) = name (root_order ! i)
                 \<and> (\<forall>k<pos ! i. name (order ! k) \<noteq> name (root_order ! i))" .
  qed
  have same: "\<forall>i<length root_order. \<forall>j<length root_order.
                 name (root_order ! i) = name (root_order ! j) \<longrightarrow> pos ! i = pos ! j"
  proof (intro allI impI)
    fix i j assume i: "i < length root_order" and j: "j < length root_order"
      and eq: "name (root_order ! i) = name (root_order ! j)"
    have "find_op name order (name (root_order ! i)) = Some (pos ! i)" using fo i by simp
    moreover have "find_op name order (name (root_order ! j)) = Some (pos ! j)" using fo j by simp
    ultimately show "pos ! i = pos ! j" using eq by simp
  qed
  have omit: "\<forall>k<length order. (\<exists>k'<k. name (order ! k') = name (order ! k)) \<longrightarrow> k \<notin> set pos"
  proof (intro allI impI notI)
    fix k assume "k < length order" and ex: "\<exists>k'<k. name (order ! k') = name (order ! k)"
      and "k \<in> set pos"
    then obtain i where "i < length pos" and pk: "pos ! i = k"
      unfolding in_set_conv_nth by blast
    then have i: "i < length root_order" using len by simp
    from first i have "name (order ! (pos ! i)) = name (root_order ! i)"
      and "\<forall>k'<pos ! i. name (order ! k') \<noteq> name (root_order ! i)" by blast+
    then have "\<forall>k'<k. name (order ! k') \<noteq> name (order ! k)" unfolding pk by simp
    with ex show False by blast
  qed
  have dup: "(\<exists>i j. i < j \<and> j < length root_order \<and> name (root_order ! i) = name (root_order ! j))
                 \<longrightarrow> \<not> distinct pos \<and> set pos \<noteq> {..<length order}"
  proof
    assume "\<exists>i j. i < j \<and> j < length root_order \<and> name (root_order ! i) = name (root_order ! j)"
    then obtain i j where ij: "i < j" "j < length root_order"
      "name (root_order ! i) = name (root_order ! j)" by blast
    have i: "i < length root_order" using ij by simp
    from same i ij(2) ij(3) have eq: "pos ! i = pos ! j" by blast
    have nd: "\<not> distinct pos"
    proof
      assume "distinct pos"
      moreover have "i < length pos" "j < length pos" "i \<noteq> j" using i ij len by simp_all
      ultimately have "pos ! i \<noteq> pos ! j" by (simp add: nth_eq_iff_index_eq)
      with eq show False by simp
    qed
    have "card (set pos) \<noteq> length pos"
    proof
      assume "card (set pos) = length pos"
      then have "distinct pos" by (rule card_distinct)
      with nd show False by simp
    qed
    then have "card (set pos) \<noteq> card {..<length order}" using len leq by simp
    then have "set pos \<noteq> {..<length order}" by (rule contrapos_nn) simp
    with nd show "\<not> distinct pos \<and> set pos \<noteq> {..<length order}" by simp
  qed
  show ?thesis
  proof (intro exI[of _ pos] conjI)
    show "find_positions name order (map name root_order) = Inr pos" by fact
    show "received = map (\<lambda>oi. order ! oi) pos" by fact
    show "length pos = length root_order" by fact
    show "length order = length root_order" by fact
    show "\<forall>i<length root_order. pos ! i < length order
                 \<and> name (order ! (pos ! i)) = name (root_order ! i)
                 \<and> (\<forall>k<pos ! i. name (order ! k) \<noteq> name (root_order ! i))" by fact
    show "\<forall>i<length root_order. \<forall>j<length root_order.
                 name (root_order ! i) = name (root_order ! j) \<longrightarrow> pos ! i = pos ! j" by fact
    show "\<forall>k<length order. (\<exists>k'<k. name (order ! k') = name (order ! k)) \<longrightarrow> k \<notin> set pos" by fact
    show "(\<exists>i j. i < j \<and> j < length root_order \<and> name (root_order ! i) = name (root_order ! j))
                 \<longrightarrow> \<not> distinct pos \<and> set pos \<noteq> {..<length order}" by fact
  qed
qed

theorem C10_first_match_duplicates_witness:
  "\<exists>pos. find_positions kernel_name [''a'', ''a'', ''b''] (map kernel_name [''a'', ''b'', ''a'']) = Inr pos
     \<and> mpi_bcast kernel_name 1 [''a'', ''b'', ''a''] [''a'', ''a'', ''b''] = Inr (map (\<lambda>oi. [''a'', ''a'', ''b''] ! oi) pos)
     \<and> \<not> distinct pos"
proof -
  have r: "(1::nat) \<noteq> 0" by simp
  have m: "mpi_bcast kernel_name 1 [''a'', ''b'', ''a''] [''a'', ''a'', ''b''] = Inr [''a'', ''b'', ''a'']"
    by (simp add: mpi_bcast_def MPI_Bcast_def kernel_name_def)
  have dupl: "\<exists>i j. i < j \<and> j < length [''a'', ''b'', ''a''] \<and>
      kernel_name ([''a'', ''b'', ''a''] ! i) = kernel_name ([''a'', ''b'', ''a''] ! j)"
    by (rule exI[of _ 0], rule exI[of _ 2]) (simp add: kernel_name_def)
  from C10_first_match_duplicates[OF r m] obtain pos where
    p1: "find_positions kernel_name [''a'', ''a'', ''b''] (map kernel_name [''a'', ''b'', ''a'']) = Inr pos"
    and p2: "[''a'', ''b'', ''a''] = map (\<lambda>oi. [''a'', ''a'', ''b''] ! oi) pos"
    and p3: "(\<exists>i j. i < j \<and> j < length [''a'', ''b'', ''a''] \<and>
      kernel_name ([''a'', ''b'', ''a''] ! i) = kernel_name ([''a'', ''b'', ''a''] ! j))
        \<longrightarrow> \<not> distinct pos \<and> set pos \<noteq> {..<length [''a'', ''a'', ''b'']}"
    by (elim exE conjE) (rule that; assumption)
  from p3 dupl have "\<not> distinct pos" by (rule mp[THEN conjunct1])
  with p1 p2 m show ?thesis by (intro exI[of _ pos]) simp
qed

end
